theory Spec2Isabelle
  imports Main
begin

section \<open>Text and values of the host language\<close>

text \<open>
  The program is written in JavaScript (src/src/app.jsx). A JavaScript string is a sequence
  of UTF-16 code units; the model covers the code units below 256 (Latin-1), one
  \<^typ>\<open>char\<close> per code unit. All the patterns of the program are ASCII; the code units
  the model leaves out would only add further white space (U+1680, U+2000 and so on) and
  two further line terminators (U+2028, U+2029).
\<close>

subsection \<open>Character classes of the regular expressions\<close>

definition is_space :: "char \<Rightarrow> bool" where
  \<comment> \<open>\<^verbatim>\<open>\s\<close>, also what \<^verbatim>\<open>trim\<close> strips and what \<^verbatim>\<open>Number\<close> skips: TAB, LF, VT, FF, CR, SP, NBSP\<close>
  "is_space c = (c \<in> set [CHR 0x09, CHR 0x0A, CHR 0x0B, CHR 0x0C, CHR 0x0D, CHR '' '', CHR 0xA0])"

definition is_line_term :: "char \<Rightarrow> bool" where
  \<comment> \<open>what \<^verbatim>\<open>.\<close> refuses and where \<^verbatim>\<open>^\<close> and \<^verbatim>\<open>$\<close> anchor under the m flag\<close>
  "is_line_term c = (c = CHR 0x0A \<or> c = CHR 0x0D)"

definition is_digit :: "char \<Rightarrow> bool" where
  "is_digit c = (c \<in> set ''0123456789'')"

definition is_alpha :: "char \<Rightarrow> bool" where
  \<comment> \<open>\<^verbatim>\<open>[A-Za-z]\<close>\<close>
  "is_alpha c = (c \<in> set ''ABCDEFGHIJKLMNOPQRSTUVWXYZabcdefghijklmnopqrstuvwxyz'')"

definition is_word :: "char \<Rightarrow> bool" where
  \<comment> \<open>\<^verbatim>\<open>[A-Za-z0-9_]\<close>, which is also \<^verbatim>\<open>\w\<close>\<close>
  "is_word c = (is_alpha c \<or> is_digit c \<or> c = CHR ''_'')"

definition lower_char :: "char \<Rightarrow> char" where
  \<comment> \<open>\<^verbatim>\<open>toLowerCase\<close> on one code unit below 256: A-Z, and the Latin-1 capitals but the
      multiplication sign\<close>
  "lower_char c =
     (let n = (of_char c :: nat)
      in if (65 \<le> n \<and> n \<le> 90) \<or> (192 \<le> n \<and> n \<le> 222 \<and> n \<noteq> 215) then char_of (n + 32) else c)"

definition toLowerCase :: "string \<Rightarrow> string" where
  "toLowerCase s = map lower_char s"

definition trim :: "string \<Rightarrow> string" where
  "trim s = rev (dropWhile is_space (rev (dropWhile is_space s)))"

fun starts_with :: "string \<Rightarrow> string \<Rightarrow> bool" where
  \<comment> \<open>\<open>starts_with p s\<close>: the text \<open>s\<close> begins with the literal \<open>p\<close>\<close>
  "starts_with [] s = True"
| "starts_with (p # ps) [] = False"
| "starts_with (p # ps) (c # cs) = (p = c \<and> starts_with ps cs)"

definition starts_with_ci :: "string \<Rightarrow> string \<Rightarrow> bool" where
  \<comment> \<open>a lower-case ASCII literal under the i flag\<close>
  "starts_with_ci p s = starts_with p (map lower_char (take (length p) s))"

fun has_substr :: "string \<Rightarrow> string \<Rightarrow> bool" where
  \<comment> \<open>\<open>has_substr w s\<close>: an unanchored literal \<open>w\<close> matches somewhere in \<open>s\<close>\<close>
  "has_substr w [] = (w = [])"
| "has_substr w (c # cs) = (starts_with w (c # cs) \<or> has_substr w cs)"

fun replace_quotes :: "string \<Rightarrow> string" where
  \<comment> \<open>\<^verbatim>\<open>.replace(/"/g, '""')\<close>\<close>
  "replace_quotes [] = []"
| "replace_quotes (c # cs) = (if c = CHR 0x22 then CHR 0x22 # CHR 0x22 # replace_quotes cs
                              else c # replace_quotes cs)"

subsection \<open>Decimal numerals\<close>

definition digit_char :: "nat \<Rightarrow> char" where
  "digit_char d = char_of (48 + d)"

function nat_digits :: "nat \<Rightarrow> string" where
  \<comment> \<open>the decimal numeral of a natural number, as in the template literal \<^verbatim>\<open>`sec${i}`\<close>\<close>
  "nat_digits n = (if n < 10 then [digit_char n] else nat_digits (n div 10) @ [digit_char (n mod 10)])"
  by pat_completeness auto
termination
  by (relation "measure id") auto

declare nat_digits.simps [simp del]

definition digit_val :: "char \<Rightarrow> nat" where
  \<comment> \<open>the value of a digit of any base up to 16\<close>
  "digit_val c =
     (let n = (of_char c :: nat)
      in if 48 \<le> n \<and> n \<le> 57 then n - 48
         else if 97 \<le> n \<and> n \<le> 102 then n - 87
         else if 65 \<le> n \<and> n \<le> 70 then n - 55
         else 0)"

definition digits_val :: "nat \<Rightarrow> string \<Rightarrow> nat" where
  \<comment> \<open>the value of a digit string in the given base\<close>
  "digits_val b ds = foldl (\<lambda>a c. b * a + digit_val c) 0 ds"

subsection \<open>Numbers\<close>

text \<open>
  A JavaScript number is an IEEE binary64. The model keeps NaN and the two infinities, and
  holds a finite number as an exact decimal \<open>m \<times> 10^e\<close>. Conversion from text overflows to
  an infinity and underflows to zero exactly where binary64 (round to nearest, ties to
  even) does, so that \<^verbatim>\<open>isNaN\<close>, \<^verbatim>\<open>Number.isFinite\<close> and the comparison with zero agree
  with the language on every string; inside the finite range the rounding of the
  significand to 53 bits is not modelled, and the two zeros are one.
\<close>

datatype jsnum = NaN | PosInf | NegInf | Fin int int

function strip10 :: "int \<Rightarrow> int \<Rightarrow> int \<times> int" where
  \<comment> \<open>the decimal without trailing zeros in the significand\<close>
  "strip10 m e = (if m = 0 then (0, 0)
                  else if m mod 10 = 0 then strip10 (m div 10) (e + 1)
                  else (m, e))"
  by pat_completeness auto
termination
  by (relation "measure (\<lambda>(m, e). nat \<bar>m\<bar>)") auto

declare strip10.simps [simp del]

definition dbl_overflow :: "int \<Rightarrow> int \<Rightarrow> bool" where
  \<comment> \<open>\<open>|m| \<times> 10^e \<ge> 2^1024 - 2^970\<close>: rounds to an infinity\<close>
  "dbl_overflow m e =
     (if 0 \<le> e then 2 ^ 1024 - 2 ^ 970 \<le> \<bar>m\<bar> * 10 ^ nat e
      else (2 ^ 1024 - 2 ^ 970) * 10 ^ nat (- e) \<le> \<bar>m\<bar>)"

definition dbl_underflow :: "int \<Rightarrow> int \<Rightarrow> bool" where
  \<comment> \<open>\<open>|m| \<times> 10^e \<le> 2^-1075\<close>: rounds to zero\<close>
  "dbl_underflow m e =
     (if 0 \<le> e then m = 0 else \<bar>m\<bar> * 2 ^ 1075 \<le> 10 ^ nat (- e))"

definition mk_num :: "int \<Rightarrow> int \<Rightarrow> jsnum" where
  "mk_num m e =
     (if dbl_underflow m e then Fin 0 0
      else if dbl_overflow m e then (if m < 0 then NegInf else PosInf)
      else (case strip10 m e of (m', e') \<Rightarrow> Fin m' e'))"

definition is_nan :: "jsnum \<Rightarrow> bool" where
  "is_nan n = (n = NaN)"

definition is_finite :: "jsnum \<Rightarrow> bool" where
  \<comment> \<open>\<^verbatim>\<open>Number.isFinite\<close>\<close>
  "is_finite n = (case n of Fin m e \<Rightarrow> True | _ \<Rightarrow> False)"

definition is_zero :: "jsnum \<Rightarrow> bool" where
  \<comment> \<open>\<^verbatim>\<open>n === 0\<close>\<close>
  "is_zero n = (case n of Fin m e \<Rightarrow> m = 0 | _ \<Rightarrow> False)"

text \<open>\<^verbatim>\<open>Number(s)\<close> on a string: the grammar StringNumericLiteral of the language.\<close>

definition signed_digits :: "string \<Rightarrow> int option" where
  \<comment> \<open>SignedInteger, to the end of the text\<close>
  "signed_digits r =
     (let sg = (case r of c # d \<Rightarrow> if c = CHR ''-'' then - 1 else 1 | [] \<Rightarrow> (1::int));
          d = (case r of c # d \<Rightarrow> if c = CHR ''-'' \<or> c = CHR ''+'' then d else r | [] \<Rightarrow> r)
      in if d \<noteq> [] \<and> list_all is_digit d then Some (sg * int (digits_val 10 d)) else None)"

definition exponent_part :: "string \<Rightarrow> int option" where
  \<comment> \<open>an optional ExponentPart, to the end of the text\<close>
  "exponent_part r =
     (case r of [] \<Rightarrow> Some 0
      | c # d \<Rightarrow> if c = CHR ''e'' \<or> c = CHR ''E'' then signed_digits d else None)"

definition unsigned_decimal :: "int \<Rightarrow> string \<Rightarrow> jsnum" where
  \<comment> \<open>StrUnsignedDecimalLiteral, with the sign already read\<close>
  "unsigned_decimal sg u =
     (if u = ''Infinity'' then (if sg < 0 then NegInf else PosInf)
      else
        let ip = takeWhile is_digit u;
            r1 = dropWhile is_digit u;
            fp = (case r1 of c # r \<Rightarrow> if c = CHR ''.'' then takeWhile is_digit r else [] | [] \<Rightarrow> []);
            r2 = (case r1 of c # r \<Rightarrow> if c = CHR ''.'' then dropWhile is_digit r else r1 | [] \<Rightarrow> r1)
        in if ip = [] \<and> fp = [] then NaN
           else (case exponent_part r2 of
                   None \<Rightarrow> NaN
                 | Some ex \<Rightarrow> mk_num (sg * int (digits_val 10 (ip @ fp))) (ex - int (length fp))))"

definition non_decimal :: "string \<Rightarrow> jsnum option" where
  \<comment> \<open>NonDecimalIntegerLiteral: 0x, 0o, 0b and their digits\<close>
  "non_decimal t =
     (case t of
        z # x # ds \<Rightarrow>
          if z = CHR ''0'' \<and> ds \<noteq> [] then
            (if (x = CHR ''x'' \<or> x = CHR ''X'') \<and> list_all (\<lambda>c. c \<in> set ''0123456789abcdefABCDEF'') ds
               then Some (mk_num (int (digits_val 16 ds)) 0)
             else if (x = CHR ''o'' \<or> x = CHR ''O'') \<and> list_all (\<lambda>c. c \<in> set ''01234567'') ds
               then Some (mk_num (int (digits_val 8 ds)) 0)
             else if (x = CHR ''b'' \<or> x = CHR ''B'') \<and> list_all (\<lambda>c. c \<in> set ''01'') ds
               then Some (mk_num (int (digits_val 2 ds)) 0)
             else None)
          else None
      | _ \<Rightarrow> None)"

definition str_to_number :: "string \<Rightarrow> jsnum" where
  "str_to_number s =
     (let t = trim s
      in if t = [] then Fin 0 0
         else (case non_decimal t of
                 Some n \<Rightarrow> n
               | None \<Rightarrow>
                   (case t of
                      c # u \<Rightarrow> if c = CHR ''+'' then unsigned_decimal 1 u
                               else if c = CHR ''-'' then unsigned_decimal (- 1) u
                               else unsigned_decimal 1 t
                    | [] \<Rightarrow> NaN)))"

text \<open>\<^verbatim>\<open>String(n)\<close> on a number: Number::toString of the language, in base 10.\<close>

definition render_decimal :: "string \<Rightarrow> int \<Rightarrow> string" where
  \<comment> \<open>the digits \<open>s\<close> of the significand and the exponent \<open>e\<close> of a positive number\<close>
  "render_decimal s e =
     (let k = int (length s); n = k + e
      in if k \<le> n \<and> n \<le> 21 then s @ replicate (nat (n - k)) (CHR ''0'')
         else if 0 < n \<and> n \<le> 21 then take (nat n) s @ ''.'' @ drop (nat n) s
         else if - 6 < n \<and> n \<le> 0 then ''0.'' @ replicate (nat (- n)) (CHR ''0'') @ s
         else
           let ex = n - 1;
               es = (if ex < 0 then ''-'' else ''+'') @ nat_digits (nat \<bar>ex\<bar>)
           in if k = 1 then s @ ''e'' @ es
              else take 1 s @ ''.'' @ drop 1 s @ ''e'' @ es)"

definition num_to_string :: "jsnum \<Rightarrow> string" where
  "num_to_string n =
     (case n of
        NaN \<Rightarrow> ''NaN''
      | PosInf \<Rightarrow> ''Infinity''
      | NegInf \<Rightarrow> ''-Infinity''
      | Fin m e \<Rightarrow>
          (case strip10 m e of
             (m', e') \<Rightarrow>
               if m' = 0 then ''0''
               else (if m' < 0 then ''-'' else '''') @ render_decimal (nat_digits (nat \<bar>m'\<bar>)) e'))"

subsection \<open>Values\<close>

text \<open>
  The values the form, the persisted store and the controller's variables hold are
  primitives: strings, numbers, booleans, \<^verbatim>\<open>null\<close> and \<^verbatim>\<open>undefined\<close>. An object used
  as a dictionary is a finite map from property names to the values of its own
  properties. A JavaScript object also inherits the members of \<^verbatim>\<open>Object.prototype\<close>
  (\<^verbatim>\<open>constructor\<close>, \<^verbatim>\<open>toString\<close> and the like), and a read under such a name finds the
  inherited member. The read of the controller's variables models this (see
  \<open>read_prop\<close> below). The other reads of the program cannot tell: every key of the
  value store holds \<^verbatim>\<open>::\<close>, so none names an inherited member, and a directive read
  under such a name is a function, which has none of the attributes the program looks
  at, as the empty directive has none.
\<close>

datatype jsval = JUndefined | JNull | JBool bool | JNum jsnum | JStr string

definition to_number :: "jsval \<Rightarrow> jsnum" where
  \<comment> \<open>\<^verbatim>\<open>Number(v)\<close>\<close>
  "to_number v =
     (case v of
        JUndefined \<Rightarrow> NaN
      | JNull \<Rightarrow> Fin 0 0
      | JBool b \<Rightarrow> (if b then Fin 1 0 else Fin 0 0)
      | JNum n \<Rightarrow> n
      | JStr s \<Rightarrow> str_to_number s)"

definition to_string :: "jsval \<Rightarrow> string" where
  \<comment> \<open>\<^verbatim>\<open>String(v)\<close>, and a value inside a template literal\<close>
  "to_string v =
     (case v of
        JUndefined \<Rightarrow> ''undefined''
      | JNull \<Rightarrow> ''null''
      | JBool b \<Rightarrow> (if b then ''true'' else ''false'')
      | JNum n \<Rightarrow> num_to_string n
      | JStr s \<Rightarrow> s)"

definition truthy :: "jsval \<Rightarrow> bool" where
  \<comment> \<open>\<^verbatim>\<open>Boolean(v)\<close>, and a value as a condition\<close>
  "truthy v =
     (case v of
        JUndefined \<Rightarrow> False
      | JNull \<Rightarrow> False
      | JBool b \<Rightarrow> b
      | JNum n \<Rightarrow> \<not> is_nan n \<and> \<not> is_zero n
      | JStr s \<Rightarrow> s \<noteq> [])"

definition nullish :: "jsval \<Rightarrow> jsval \<Rightarrow> jsval" where
  \<comment> \<open>\<^verbatim>\<open>a ?? b\<close>\<close>
  "nullish a b = (if a = JUndefined \<or> a = JNull then b else a)"

section \<open>Parsing and inference\<close>

subsection \<open>Lines\<close>

definition cons_to_first :: "char \<Rightarrow> string list \<Rightarrow> string list" where
  "cons_to_first c ls = (case ls of l # r \<Rightarrow> (c # l) # r | [] \<Rightarrow> [[c]])"

fun split_lines :: "string \<Rightarrow> string list" where
  \<comment> \<open>\<^verbatim>\<open>code.split(/\r?\n/)\<close>\<close>
  "split_lines [] = [[]]"
| "split_lines [c] = (if c = CHR 0x0A then [[], []] else [[c]])"
| "split_lines (c # d # cs) =
     (if c = CHR 0x0A then [] # split_lines (d # cs)
      else if c = CHR 0x0D \<and> d = CHR 0x0A then [] # split_lines cs
      else cons_to_first c (split_lines (d # cs)))"

fun join_lines :: "string list \<Rightarrow> string" where
  \<comment> \<open>\<^verbatim>\<open>.join("\n")\<close>\<close>
  "join_lines [] = []"
| "join_lines [l] = l"
| "join_lines (l # m # ls) = l @ CHR 0x0A # join_lines (m # ls)"

definition slice :: "'a list \<Rightarrow> nat \<Rightarrow> nat \<Rightarrow> 'a list" where
  \<comment> \<open>\<^verbatim>\<open>xs.slice(start, end)\<close> for indices that are not negative\<close>
  "slice xs i j = take (j - i) (drop i xs)"

subsection \<open>Section headers\<close>

text \<open>
  \<^verbatim>\<open>SECTION_HEADER = /^\s*(?:[';]\s*)?#\s*(.+?)\s*$/\<close>, matched against one line. White
  space, the comment markers and \<^verbatim>\<open>#\<close> are disjoint, so the part up to \<^verbatim>\<open>#\<close> matches in
  one way only. After \<^verbatim>\<open>#\<close> the matcher backtracks: the greedy \<^verbatim>\<open>\s*\<close> gives back one
  character at a time, and for each start the lazy group grows one character at a time,
  until the rest of the line is white space.
\<close>

definition header_tail :: "string \<Rightarrow> string option" where
  \<comment> \<open>the group of \<^verbatim>\<open>\s*(.+?)\s*$\<close> on what follows \<^verbatim>\<open>#\<close>\<close>
  "header_tail r =
     map_option (\<lambda>(i, j). slice r i j)
       (find (\<lambda>(i, j). list_all (\<lambda>c. \<not> is_line_term c) (slice r i j) \<and> list_all is_space (drop j r))
          (concat (map (\<lambda>i. map (Pair i) [Suc i..<Suc (length r)])
                     (rev [0..<Suc (length (takeWhile is_space r))]))))"

definition header_match :: "string \<Rightarrow> string option" where
  \<comment> \<open>\<^verbatim>\<open>line.match(SECTION_HEADER)\<close>: the group, or None for \<^verbatim>\<open>null\<close>\<close>
  "header_match l =
     (let s1 = dropWhile is_space l;
          s2 = (case s1 of c # r \<Rightarrow> if c = CHR 0x27 \<or> c = CHR '';'' then dropWhile is_space r else s1
                | [] \<Rightarrow> s1)
      in case s2 of
           c # r \<Rightarrow> if c = CHR ''#'' then header_tail r else None
         | [] \<Rightarrow> None)"

record sect =
  sec_id :: string
  sec_title :: string
  sec_start :: nat
  sec_end :: nat
  sec_text :: string

definition header_at :: "string list \<Rightarrow> nat \<Rightarrow> (nat \<times> string) list" where
  \<comment> \<open>the body of the first loop of \<^verbatim>\<open>parseSections\<close>: what line \<open>i\<close> pushes on \<open>headers\<close>\<close>
  "header_at lines i =
     (case header_match (lines ! i) of
        Some g \<Rightarrow> [(i, trim g)]
      | None \<Rightarrow> [])"

definition headers_of :: "string list \<Rightarrow> (nat \<times> string) list" where
  \<comment> \<open>the first loop of \<^verbatim>\<open>parseSections\<close>: line index and trimmed title of every header\<close>
  "headers_of lines = concat (map (header_at lines) [0..<length lines])"

definition section_at :: "string list \<Rightarrow> (nat \<times> string) list \<Rightarrow> nat \<Rightarrow> sect" where
  \<comment> \<open>the body of the second loop: the section that follows header \<open>i\<close>\<close>
  "section_at lines headers i =
     (let start = fst (headers ! i) + 1;
          end' = (if i + 1 < length headers then fst (headers ! (i + 1)) else length lines)
      in \<lparr>sec_id = ''sec'' @ nat_digits i, sec_title = snd (headers ! i),
           sec_start = start, sec_end = end',
           sec_text = join_lines (slice lines start end')\<rparr>)"

definition parseSections :: "string \<Rightarrow> sect list" where
  "parseSections code =
     (let lines = split_lines code;
          headers = headers_of lines
      in if length headers = 0 then
           [\<lparr>sec_id = ''sec0'', sec_title = ''Main'', sec_start = 0, sec_end = length lines,
             sec_text = code\<rparr>]
         else map (section_at lines headers) [0..<length headers])"

subsection \<open>Variable references\<close>

function var_matches :: "string \<Rightarrow> string list" where
  \<comment> \<open>the groups of the successive matches of \<^verbatim>\<open>VAR_REGEX = /&([A-Za-z][A-Za-z0-9_]*)/g\<close>\<close>
  "var_matches [] = []"
| "var_matches (c # cs) =
     (if c = CHR ''&'' \<and> (case cs of l # r \<Rightarrow> is_alpha l | [] \<Rightarrow> False)
      then takeWhile is_word cs # var_matches (dropWhile is_word cs)
      else var_matches cs)"
  by pat_completeness auto
termination
  by (relation "measure length") (auto simp: le_imp_less_Suc length_dropWhile_le)

declare var_matches.simps [simp del]

definition set_add :: "'a list \<Rightarrow> 'a \<Rightarrow> 'a list" where
  \<comment> \<open>\<^verbatim>\<open>set.add(x)\<close> on a Set held in insertion order\<close>
  "set_add xs x = (if x \<in> set xs then xs else xs @ [x])"

definition extractVariables :: "string \<Rightarrow> string list" where
  "extractVariables code = foldl set_add [] (var_matches code)"

subsection \<open>Anchored patterns over a whole text\<close>

text \<open>
  \<^verbatim>\<open>CHECKMARK_REGEX\<close> and \<^verbatim>\<open>DIRECTIVE_REGEX\<close> carry the flags g, m and i and are run by
  \<^verbatim>\<open>exec\<close> in a loop: each call looks for the first position, from where the last match
  ended, at which the pattern matches. With the m flag \<^verbatim>\<open>^\<close> holds at the start of the
  text and after a line terminator. \<^verbatim>\<open>\s\<close> also matches line terminators, so a match may
  run across lines. The character classes that follow one another in these patterns are
  disjoint (white space, comment marker, \<^verbatim>\<open>@\<close>, sigils, word characters), so each greedy
  repetition keeps all it can take; the one place where the matcher gives characters back
  is \<^verbatim>\<open>\s*$\<close>.
\<close>

definition has_space :: "string \<Rightarrow> bool" where
  \<comment> \<open>\<^verbatim>\<open>\s+\<close> can start here\<close>
  "has_space s = (case s of c # r \<Rightarrow> is_space c | [] \<Rightarrow> False)"

definition comment_lead :: "string \<Rightarrow> string option" where
  \<comment> \<open>\<^verbatim>\<open>\s*[';]\s*\<close>: what is left after it\<close>
  "comment_lead s =
     (case dropWhile is_space s of
        [] \<Rightarrow> None
      | q # r \<Rightarrow> if q = CHR 0x27 \<or> q = CHR '';'' then Some (dropWhile is_space r) else None)"

definition keyword_ci :: "string \<Rightarrow> string \<Rightarrow> string option" where
  \<comment> \<open>a literal under the i flag and then \<^verbatim>\<open>\s+\<close>: what is left after them\<close>
  "keyword_ci kw s =
     (if starts_with_ci kw s \<and> has_space (drop (length kw) s)
      then Some (dropWhile is_space (drop (length kw) s))
      else None)"

definition opt_char :: "char \<Rightarrow> string \<Rightarrow> string \<times> string" where
  \<comment> \<open>an optional literal character: what it matched and what is left\<close>
  "opt_char c s = (case s of d # r \<Rightarrow> if d = c then ([c], r) else ([], s) | [] \<Rightarrow> ([], s))"

definition checkmark_ref :: "string \<Rightarrow> (string \<times> string) option" where
  \<comment> \<open>\<^verbatim>\<open>(&?\$?[A-Za-z][A-Za-z0-9_]*)\<close>: the group and what is left\<close>
  "checkmark_ref s =
     (let (amp, s1) = opt_char (CHR ''&'') s;
          (dol, s2) = opt_char (CHR ''$'') s1
      in case s2 of
           [] \<Rightarrow> None
         | l # r \<Rightarrow> if is_alpha l then Some (amp @ dol @ l # takeWhile is_word r, dropWhile is_word r)
                    else None)"

definition input_ref :: "string \<Rightarrow> (string \<times> string) option" where
  \<comment> \<open>\<^verbatim>\<open>(&[A-Za-z][A-Za-z0-9_]*)\<close>: the group and what is left\<close>
  "input_ref s =
     (case s of
        a # l # r \<Rightarrow> if a = CHR ''&'' \<and> is_alpha l
                      then Some (a # l # takeWhile is_word r, dropWhile is_word r)
                      else None
      | _ \<Rightarrow> None)"

definition eol_rest :: "string \<Rightarrow> string option" where
  \<comment> \<open>\<^verbatim>\<open>\s*$\<close> under the m flag: the white space is taken to the end of the text, or else up
      to its last line terminator; the result is what is left after the match\<close>
  "eol_rest s =
     (let w = takeWhile is_space s
      in if dropWhile is_space s = [] then Some []
         else
           let k = length (dropWhile (\<lambda>c. \<not> is_line_term c) (rev w))
           in if k = 0 then None else Some (drop (k - 1) s))"

definition checkmark_at :: "string \<Rightarrow> (string \<times> string) option" where
  \<comment> \<open>\<^verbatim>\<open>/^\s*[';]\s*@checkmark\s+(&?\$?[A-Za-z][A-Za-z0-9_]*)\s*$/gmi\<close> at a position where
      \<^verbatim>\<open>^\<close> holds: the group and what is left after the match\<close>
  "checkmark_at s =
     (case comment_lead s of
        None \<Rightarrow> None
      | Some s1 \<Rightarrow>
          (case keyword_ci ''@checkmark'' s1 of
             None \<Rightarrow> None
           | Some s2 \<Rightarrow>
               (case checkmark_ref s2 of
                  None \<Rightarrow> None
                | Some (raw, s3) \<Rightarrow>
                    (case eol_rest s3 of
                       None \<Rightarrow> None
                     | Some rest \<Rightarrow> Some (raw, rest)))))"

definition directive_at :: "string \<Rightarrow> (string \<times> string \<times> string) option" where
  \<comment> \<open>\<^verbatim>\<open>/^\s*[';]\s*@input\s+(&[A-Za-z][A-Za-z0-9_]*)\s+([^\r\n]*)/gmi\<close> at a position
      where \<^verbatim>\<open>^\<close> holds: the two groups and what is left after the match\<close>
  "directive_at s =
     (case comment_lead s of
        None \<Rightarrow> None
      | Some s1 \<Rightarrow>
          (case keyword_ci ''@input'' s1 of
             None \<Rightarrow> None
           | Some s2 \<Rightarrow>
               (case input_ref s2 of
                  None \<Rightarrow> None
                | Some (v, s3) \<Rightarrow>
                    if has_space s3
                    then Some (v, takeWhile (\<lambda>c. \<not> is_line_term c) (dropWhile is_space s3),
                               dropWhile (\<lambda>c. \<not> is_line_term c) (dropWhile is_space s3))
                    else None)))"

definition consumed_last_lt :: "string \<Rightarrow> string \<Rightarrow> bool" where
  \<comment> \<open>the match that leaves \<open>rest\<close> of \<open>s\<close> ended with a line terminator, so that \<^verbatim>\<open>^\<close>
      holds where the next search starts\<close>
  "consumed_last_lt s rest = is_line_term (last (take (length s - length rest) s))"

text \<open>Every match takes at least the comment marker, so the loops below make progress.\<close>

lemma dropWhile_Cons_less: "dropWhile P s = c # r \<Longrightarrow> length r < length s"
  by (metis length_dropWhile_le length_Cons less_eq_Suc_le)

lemma comment_lead_less: "comment_lead s = Some r \<Longrightarrow> length r < length s"
proof -
  assume a: "comment_lead s = Some r"
  then obtain q t where b: "dropWhile is_space s = q # t" and c: "r = dropWhile is_space t"
    by (auto simp: comment_lead_def split: list.splits if_splits)
  have "length r \<le> length t" unfolding c by (rule length_dropWhile_le)
  also have "\<dots> < length (dropWhile is_space s)" using b by simp
  also have "\<dots> \<le> length s" by (rule length_dropWhile_le)
  finally show ?thesis .
qed

lemma keyword_ci_le: "keyword_ci kw s = Some r \<Longrightarrow> length r \<le> length s"
proof -
  assume "keyword_ci kw s = Some r"
  then have c: "r = dropWhile is_space (drop (length kw) s)"
    by (auto simp: keyword_ci_def split: if_splits)
  have "length r \<le> length (drop (length kw) s)" unfolding c by (rule length_dropWhile_le)
  also have "\<dots> \<le> length s" by simp
  finally show ?thesis .
qed

lemma opt_char_le: "opt_char c s = (a, r) \<Longrightarrow> length r \<le> length s"
  by (auto simp: opt_char_def split: list.splits if_splits)

lemma checkmark_ref_le: "checkmark_ref s = Some (raw, r) \<Longrightarrow> length r \<le> length s"
proof -
  assume a: "checkmark_ref s = Some (raw, r)"
  obtain amp s1 where b: "opt_char (CHR ''&'') s = (amp, s1)" by (cases "opt_char (CHR ''&'') s")
  obtain dol s2 where c: "opt_char (CHR ''$'') s1 = (dol, s2)" by (cases "opt_char (CHR ''$'') s1")
  from a b c obtain l t where d: "s2 = l # t" and e: "r = dropWhile is_word t"
    by (auto simp: checkmark_ref_def split: list.splits if_splits)
  have "length r \<le> length t" unfolding e by (rule length_dropWhile_le)
  also have "\<dots> \<le> length s2" using d by simp
  also have "\<dots> \<le> length s1" using c by (rule opt_char_le)
  also have "\<dots> \<le> length s" using b by (rule opt_char_le)
  finally show ?thesis .
qed

lemma input_ref_le: "input_ref s = Some (v, r) \<Longrightarrow> length r \<le> length s"
proof -
  assume a: "input_ref s = Some (v, r)"
  then obtain a' l t where d: "s = a' # l # t" and e: "r = dropWhile is_word t"
    by (auto simp: input_ref_def split: list.splits if_splits)
  have "length r \<le> length t" unfolding e by (rule length_dropWhile_le)
  also have "\<dots> \<le> length s" using d by simp
  finally show ?thesis .
qed

lemma eol_rest_le: "eol_rest s = Some r \<Longrightarrow> length r \<le> length s"
  by (auto simp: eol_rest_def Let_def split: if_splits)

lemma checkmark_at_less:
  assumes "checkmark_at s = Some (raw, rest)"
  shows "length rest < length s"
proof -
  from assms obtain s1 s2 s3 where
    a: "comment_lead s = Some s1" and b: "keyword_ci ''@checkmark'' s1 = Some s2"
    and c: "checkmark_ref s2 = Some (raw, s3)" and d: "eol_rest s3 = Some rest"
    by (auto simp: checkmark_at_def split: option.splits)
  have "length rest \<le> length s3" using d by (rule eol_rest_le)
  also have "\<dots> \<le> length s2" using c by (rule checkmark_ref_le)
  also have "\<dots> \<le> length s1" using b by (rule keyword_ci_le)
  also have "\<dots> < length s" using a by (rule comment_lead_less)
  finally show ?thesis .
qed

lemma directive_at_less:
  assumes "directive_at s = Some (v, attrs, rest)"
  shows "length rest < length s"
proof -
  from assms obtain s1 s2 s3 where
    a: "comment_lead s = Some s1" and b: "keyword_ci ''@input'' s1 = Some s2"
    and c: "input_ref s2 = Some (v, s3)"
    and d: "rest = dropWhile (\<lambda>c. \<not> is_line_term c) (dropWhile is_space s3)"
    by (auto simp: directive_at_def split: option.splits if_splits)
  have "length rest \<le> length (dropWhile is_space s3)" unfolding d by (rule length_dropWhile_le)
  also have "\<dots> \<le> length s3" by (rule length_dropWhile_le)
  also have "\<dots> \<le> length s2" using c by (rule input_ref_le)
  also have "\<dots> \<le> length s1" using b by (rule keyword_ci_le)
  also have "\<dots> < length s" using a by (rule comment_lead_less)
  finally show ?thesis .
qed

text \<open>
  The two loops \<^verbatim>\<open>while ((m = REGEX.exec(text)))\<close>. \<open>bol\<close> says whether \<^verbatim>\<open>^\<close> holds at
  the current position. Each loop runs until \<^verbatim>\<open>exec\<close> returns \<^verbatim>\<open>null\<close>, which puts
  \<^verbatim>\<open>lastIndex\<close> of the shared pattern back to 0, so every call starts at the start.
\<close>

function checkmark_loop :: "bool \<Rightarrow> string \<Rightarrow> string list" where
  "checkmark_loop bol s =
     (case (if bol then checkmark_at s else None) of
        Some (raw, rest) \<Rightarrow> raw # checkmark_loop (consumed_last_lt s rest) rest
      | None \<Rightarrow> (case s of [] \<Rightarrow> [] | c # cs \<Rightarrow> checkmark_loop (is_line_term c) cs))"
  by pat_completeness auto
termination
  by (relation "measure (\<lambda>(bol, s). length s)") (auto split: if_splits dest: checkmark_at_less)

declare checkmark_loop.simps [simp del]

function directive_loop :: "bool \<Rightarrow> string \<Rightarrow> (string \<times> string) list" where
  "directive_loop bol s =
     (case (if bol then directive_at s else None) of
        Some (v, attrs, rest) \<Rightarrow> (v, attrs) # directive_loop (consumed_last_lt s rest) rest
      | None \<Rightarrow> (case s of [] \<Rightarrow> [] | c # cs \<Rightarrow> directive_loop (is_line_term c) cs))"
  by pat_completeness auto
termination
  by (relation "measure (\<lambda>(bol, s). length s)") (auto split: if_splits dest: directive_at_less)

declare directive_loop.simps [simp del]

subsection \<open>Checkmarks\<close>

definition strip_sigil :: "string \<Rightarrow> string" where
  \<comment> \<open>\<^verbatim>\<open>raw.replace(/^[$&]/, "")\<close>\<close>
  "strip_sigil raw =
     (case raw of c # r \<Rightarrow> if c = CHR ''$'' \<or> c = CHR ''&'' then r else raw | [] \<Rightarrow> [])"

definition parseCheckmarksIn :: "string \<Rightarrow> string list" where
  "parseCheckmarksIn text = map (\<lambda>m1. strip_sigil (trim m1)) (checkmark_loop True text)"

subsection \<open>Directives\<close>

type_synonym cfg = "string \<rightharpoonup> string"

definition quoted :: "char \<Rightarrow> string \<Rightarrow> (string \<times> string) option" where
  \<comment> \<open>\<^verbatim>\<open>"[^"]*"\<close> and \<^verbatim>\<open>'[^']*'\<close>: the token with its quotes, and what is left\<close>
  "quoted q v =
     (case v of
        c # t \<Rightarrow> if c = q \<and> q \<in> set t
                  then Some (q # takeWhile (\<lambda>d. d \<noteq> q) t @ [q], tl (dropWhile (\<lambda>d. d \<noteq> q) t))
                  else None
      | [] \<Rightarrow> None)"

definition bare :: "string \<Rightarrow> (string \<times> string) option" where
  \<comment> \<open>\<^verbatim>\<open>[^\s]+\<close>\<close>
  "bare v =
     (if takeWhile (\<lambda>c. \<not> is_space c) v = [] then None
      else Some (takeWhile (\<lambda>c. \<not> is_space c) v, dropWhile (\<lambda>c. \<not> is_space c) v))"

definition attr_value :: "string \<Rightarrow> (string \<times> string) option" where
  \<comment> \<open>\<^verbatim>\<open>((\"[^\"]*\")|('[^']*')|[^\s]+)\<close>: the first alternative that matches\<close>
  "attr_value v =
     (case quoted (CHR 0x22) v of
        Some r \<Rightarrow> Some r
      | None \<Rightarrow> (case quoted (CHR 0x27) v of Some r \<Rightarrow> Some r | None \<Rightarrow> bare v))"

definition attr_at :: "string \<Rightarrow> (string \<times> string \<times> string) option" where
  \<comment> \<open>\<^verbatim>\<open>/(\w+)=((\"[^\"]*\")|('[^']*')|[^\s]+)/g\<close> at one position: key, value, what is left\<close>
  "attr_at s =
     (if takeWhile is_word s = [] then None
      else (case dropWhile is_word s of
              c # v \<Rightarrow> if c = CHR ''=''
                        then (case attr_value v of
                                Some (val, rest) \<Rightarrow> Some (takeWhile is_word s, val, rest)
                              | None \<Rightarrow> None)
                        else None
            | [] \<Rightarrow> None))"

lemma quoted_less: "quoted q v = Some (tok, r) \<Longrightarrow> length r < length v"
proof -
  assume "quoted q v = Some (tok, r)"
  then obtain t where a: "v = q # t" and b: "r = tl (dropWhile (\<lambda>d. d \<noteq> q) t)"
    by (auto simp: quoted_def split: list.splits if_splits)
  have "length r \<le> length (dropWhile (\<lambda>d. d \<noteq> q) t)" unfolding b by simp
  also have "\<dots> \<le> length t" by (rule length_dropWhile_le)
  also have "\<dots> < length v" using a by simp
  finally show ?thesis .
qed

lemma bare_le: "bare v = Some (tok, r) \<Longrightarrow> length r \<le> length v"
  by (auto simp: bare_def length_dropWhile_le split: if_splits)

lemma attr_value_le: "attr_value v = Some (tok, r) \<Longrightarrow> length r \<le> length v"
  by (auto simp: attr_value_def split: option.splits dest: quoted_less bare_le less_imp_le)

lemma attr_at_less:
  assumes "attr_at s = Some (k, val, rest)"
  shows "length rest < length s"
proof -
  from assms obtain c v where a: "dropWhile is_word s = c # v" and b: "attr_value v = Some (val, rest)"
    by (auto simp: attr_at_def split: if_splits list.splits option.splits)
  have "length rest \<le> length v" using b by (rule attr_value_le)
  also have "\<dots> < length s" using a by (rule dropWhile_Cons_less)
  finally show ?thesis .
qed

definition unquote :: "string \<Rightarrow> string" where
  \<comment> \<open>a value that starts and ends with the same quote loses both: \<^verbatim>\<open>val.slice(1, -1)\<close>\<close>
  "unquote val =
     (if val \<noteq> [] \<and> ((hd val = CHR 0x22 \<and> last val = CHR 0x22) \<or> (hd val = CHR 0x27 \<and> last val = CHR 0x27))
      then butlast (tl val) else val)"

function attr_loop :: "string \<Rightarrow> (string \<times> string) list" where
  \<comment> \<open>the inner loop \<^verbatim>\<open>while ((a = attrRegex.exec(attrs)))\<close>: key and unquoted value\<close>
  "attr_loop s =
     (case attr_at s of
        Some (k, val, rest) \<Rightarrow> (k, unquote val) # attr_loop rest
      | None \<Rightarrow> (case s of [] \<Rightarrow> [] | c # cs \<Rightarrow> attr_loop cs))"
  by pat_completeness auto
termination
  by (relation "measure length") (auto dest: attr_at_less)

declare attr_loop.simps [simp del]

definition directive_cfg :: "string \<Rightarrow> cfg" where
  \<comment> \<open>\<^verbatim>\<open>cfg[key] = val\<close> for each attribute in turn\<close>
  "directive_cfg attrs = foldl (\<lambda>cfg (k, v). cfg(k \<mapsto> v)) Map.empty (attr_loop attrs)"

definition strip_amp :: "string \<Rightarrow> string" where
  \<comment> \<open>\<^verbatim>\<open>m[1].replace(/^&/, "")\<close>\<close>
  "strip_amp v = (case v of c # r \<Rightarrow> if c = CHR ''&'' then r else v | [] \<Rightarrow> [])"

definition add_directive :: "(string \<rightharpoonup> cfg) \<Rightarrow> string \<times> string \<Rightarrow> (string \<rightharpoonup> cfg)" where
  \<comment> \<open>the body of the outer loop: \<^verbatim>\<open>map[varName] = cfg\<close> for one match\<close>
  "add_directive m va = m(strip_amp (fst va) \<mapsto> directive_cfg (snd va))"

definition parseDirectivesIn :: "string \<Rightarrow> (string \<rightharpoonup> cfg)" where
  "parseDirectivesIn text = foldl add_directive Map.empty (directive_loop True text)"

subsection \<open>Field inference\<close>

definition toBool :: "jsval \<Rightarrow> bool" where
  "toBool v =
     (case v of
        JBool b \<Rightarrow> b
      | _ \<Rightarrow> toLowerCase (trim (to_string v)) \<in> set [''1'', ''true'', ''yes'', ''y'', ''on''])"

definition toNumOrEmpty :: "jsval \<Rightarrow> jsval" where
  "toNumOrEmpty v =
     (if v = JStr [] \<or> v = JUndefined \<or> v = JNull then JStr []
      else if is_finite (to_number v) then JNum (to_number v) else JStr [])"

lemma dropWhile_twice_less:
  "dropWhile P (c # cs) = d # r \<Longrightarrow> length (dropWhile Q r) < Suc (length cs)"
proof -
  assume a: "dropWhile P (c # cs) = d # r"
  have "length (dropWhile Q r) \<le> length r" by (rule length_dropWhile_le)
  also have "\<dots> < length (c # cs)" using a by (rule dropWhile_Cons_less)
  finally show ?thesis by simp
qed

function split_commas :: "string \<Rightarrow> string list" where
  \<comment> \<open>\<^verbatim>\<open>.split(/\s*,\s*/)\<close>: a separator is a comma with the white space around it\<close>
  "split_commas [] = [[]]"
| "split_commas (c # cs) =
     (case dropWhile is_space (c # cs) of
        d # r \<Rightarrow> if d = CHR '','' then [] # split_commas (dropWhile is_space r)
                  else cons_to_first c (split_commas cs)
      | [] \<Rightarrow> cons_to_first c (split_commas cs))"
  by pat_completeness auto
termination
  by (relation "measure length") (auto simp del: dropWhile.simps dest: dropWhile_twice_less)

declare split_commas.simps [simp del]

definition number_words :: "string list" where
  \<comment> \<open>the alternatives of the unanchored pattern of \<^verbatim>\<open>inferField\<close>\<close>
  "number_words = [''diameter'', ''radius'', ''depth'', ''height'', ''width'', ''speed'', ''feed'',
                   ''x'', ''y'', ''z'', ''angle'', ''thickness'', ''step'', ''offset'', ''distance'',
                   ''length'']"

definition checkbox_prefixes :: "string list" where
  \<comment> \<open>the alternatives of the pattern anchored at the start\<close>
  "checkbox_prefixes = [''use'', ''enable'', ''flag'', ''do'', ''is_'']"

definition str_or :: "string option \<Rightarrow> string \<Rightarrow> string" where
  \<comment> \<open>\<^verbatim>\<open>a || b\<close> where \<open>a\<close> is a string or \<^verbatim>\<open>undefined\<close>\<close>
  "str_or a b = (case a of Some x \<Rightarrow> if x \<noteq> [] then x else b | None \<Rightarrow> b)"

record descriptor =
  d_type :: string
  d_label :: string
  d_default :: jsval
  d_options :: "string list option"
  d_min :: "jsnum option"
  d_max :: "jsnum option"
  d_step :: "jsnum option"
  d_placeholder :: "string option"

definition inferField :: "string \<Rightarrow> cfg \<Rightarrow> descriptor" where
  "inferField varName cfg =
     (let type0 = str_or (cfg ''type'') ''text'';
          n = toLowerCase varName;
          type = (if str_or (cfg ''type'') [] = [] then
                    (if list_ex (\<lambda>w. has_substr w n) number_words then ''number''
                     else if list_ex (\<lambda>w. starts_with w n) checkbox_prefixes then ''checkbox''
                     else type0)
                  else type0);
          label = str_or (cfg ''label'') varName;
          def0 = (case cfg ''default'' of Some x \<Rightarrow> JStr x | None \<Rightarrow> JStr []);
          def = (if type = ''checkbox'' then JBool (toBool def0)
                 else if type = ''number'' then toNumOrEmpty def0
                 else def0);
          options = (case cfg ''options'' of
                       Some x \<Rightarrow> if x \<noteq> [] then Some (split_commas x) else None
                     | None \<Rightarrow> None)
      in \<lparr>d_type = type, d_label = label, d_default = def, d_options = options,
           d_min = map_option str_to_number (cfg ''min''),
           d_max = map_option str_to_number (cfg ''max''),
           d_step = map_option str_to_number (cfg ''step''),
           d_placeholder = cfg ''placeholder''\<rparr>)"

subsection \<open>Section models\<close>

record field =
  f_name :: string
  f_type :: string
  f_label :: string
  f_default :: jsval
  f_options :: "string list option"
  f_min :: "jsnum option"
  f_max :: "jsnum option"
  f_step :: "jsnum option"
  f_placeholder :: "string option"

definition mk_field :: "string \<Rightarrow> descriptor \<Rightarrow> field" where
  \<comment> \<open>a descriptor under its name\<close>
  "mk_field v d =
     \<lparr>f_name = v, f_type = d_type d, f_label = d_label d, f_default = d_default d,
      f_options = d_options d, f_min = d_min d, f_max = d_max d, f_step = d_step d,
      f_placeholder = d_placeholder d\<rparr>"

record model = sect +
  sec_directives :: "string \<rightharpoonup> cfg"
  sec_fields :: "field list"
  sec_checkVars :: "string list"

definition field_of :: "(string \<rightharpoonup> cfg) \<Rightarrow> string \<Rightarrow> field" where
  \<comment> \<open>\<^verbatim>\<open>{ name: v, ...inferField(v, directives[v] || {}) }\<close>\<close>
  "field_of ds v = mk_field v (inferField v (case ds v of Some c \<Rightarrow> c | None \<Rightarrow> Map.empty))"

definition section_model :: "sect \<Rightarrow> model" where
  \<comment> \<open>the body of \<^verbatim>\<open>sections.map(sec => ...)\<close>\<close>
  "section_model sec =
     \<lparr>sec_id = sec_id sec, sec_title = sec_title sec, sec_start = sec_start sec,
      sec_end = sec_end sec, sec_text = sec_text sec,
      sec_directives = parseDirectivesIn (sec_text sec),
      sec_fields = map (field_of (parseDirectivesIn (sec_text sec))) (extractVariables (sec_text sec)),
      sec_checkVars = parseCheckmarksIn (sec_text sec)\<rparr>"

definition sectionModels :: "string \<Rightarrow> model list" where
  \<comment> \<open>the two memos of the component: the sections of the code, then their models\<close>
  "sectionModels code = map section_model (parseSections code)"

section \<open>The value store\<close>

type_synonym store = "string \<rightharpoonup> jsval"

definition keyFor :: "string \<Rightarrow> string \<Rightarrow> string" where
  "keyFor secId varName = secId @ ''::'' @ varName"

definition hasVal :: "jsval \<Rightarrow> bool" where
  "hasVal v = (v \<noteq> JStr [] \<and> v \<noteq> JNull \<and> v \<noteq> JUndefined)"

definition lookup :: "store \<Rightarrow> string \<Rightarrow> jsval" where
  \<comment> \<open>\<^verbatim>\<open>obj[k]\<close>: a missing property reads as \<^verbatim>\<open>undefined\<close>\<close>
  "lookup m k = (case m k of Some v \<Rightarrow> v | None \<Rightarrow> JUndefined)"

definition field_initial :: "field \<Rightarrow> jsval" where
  \<comment> \<open>\<^verbatim>\<open>f.type === "checkbox" ? (f.default ?? false) : (f.default ?? "")\<close>\<close>
  "field_initial f =
     (if f_type f = ''checkbox'' then nullish (f_default f) (JBool False)
      else nullish (f_default f) (JStr []))"

definition reconcile_field :: "string \<Rightarrow> store \<Rightarrow> field \<Rightarrow> store" where
  \<comment> \<open>the body of \<^verbatim>\<open>sec.fields.forEach\<close>, on the copy \<open>next\<close>\<close>
  "reconcile_field secId next f =
     (let k = keyFor secId (f_name f)
      in if next k = None \<or> next k = Some (JStr []) \<or> next k = Some JNull \<or> next k = Some JUndefined
         then next(k \<mapsto> field_initial f)
         else next)"

definition reconcile_section :: "store \<Rightarrow> model \<Rightarrow> store" where
  "reconcile_section next sec = foldl (reconcile_field (sec_id sec)) next (sec_fields sec)"

definition valid_keys :: "model list \<Rightarrow> string list" where
  \<comment> \<open>the set \<open>valid\<close>, as the list of the keys added to it\<close>
  "valid_keys ms = concat (map (\<lambda>sec. map (\<lambda>f. keyFor (sec_id sec) (f_name f)) (sec_fields sec)) ms)"

definition reconcile :: "model list \<Rightarrow> store \<Rightarrow> store" where
  \<comment> \<open>the updater given to \<^verbatim>\<open>setValues\<close> by the effect on \<^verbatim>\<open>sectionModels\<close>\<close>
  "reconcile ms prev = (foldl reconcile_section prev ms) |` set (valid_keys ms)"

section \<open>Completion and the preamble\<close>

definition object_prototype_names :: "string list" where
  \<comment> \<open>what every plain object inherits from \<^verbatim>\<open>Object.prototype\<close>: functions, and under
      \<^verbatim>\<open>__proto__\<close> the prototype object itself\<close>
  "object_prototype_names =
     [''constructor'', ''hasOwnProperty'', ''isPrototypeOf'', ''propertyIsEnumerable'',
      ''toLocaleString'', ''toString'', ''valueOf'', ''__defineGetter__'', ''__defineSetter__'',
      ''__lookupGetter__'', ''__lookupSetter__'', ''__proto__'']"

datatype propval = Own jsval | Inherited

definition read_prop :: "store \<Rightarrow> string \<Rightarrow> propval" where
  \<comment> \<open>\<^verbatim>\<open>obj?.[k]\<close> on a plain object: its own property, or else the member it inherits, or
      else \<^verbatim>\<open>undefined\<close>\<close>
  "read_prop obj k =
     (case obj k of
        Some v \<Rightarrow> Own v
      | None \<Rightarrow> if k \<in> set object_prototype_names then Inherited else Own JUndefined)"

definition prop_missing :: "propval \<Rightarrow> bool" where
  \<comment> \<open>\<^verbatim>\<open>v === undefined || v === null\<close>; an inherited member is an object\<close>
  "prop_missing p = (case p of Own v \<Rightarrow> v = JUndefined \<or> v = JNull | Inherited \<Rightarrow> False)"

definition prop_number :: "propval \<Rightarrow> jsnum" where
  \<comment> \<open>\<^verbatim>\<open>Number(v)\<close>; a function and the prototype object convert through their text, which
      is no numeral\<close>
  "prop_number p = (case p of Own v \<Rightarrow> to_number v | Inherited \<Rightarrow> NaN)"

definition prop_truthy :: "propval \<Rightarrow> bool" where
  \<comment> \<open>\<^verbatim>\<open>Boolean(v)\<close>; every object is truthy\<close>
  "prop_truthy p = (case p of Own v \<Rightarrow> truthy v | Inherited \<Rightarrow> True)"

definition isSectionComplete :: "store \<Rightarrow> model \<Rightarrow> bool" where
  \<comment> \<open>\<open>configVars\<close> is the state of the component the function closes over: the plain
      object of the controller's variables, or \<^verbatim>\<open>{}\<close>\<close>
  "isSectionComplete configVars sec =
     (if length (sec_checkVars sec) = 0 then False
      else list_ex (\<lambda>name.
             let v = read_prop configVars name
             in if prop_missing v then False
                else if is_finite (prop_number v) then \<not> is_zero (prop_number v)
                else prop_truthy v)
           (sec_checkVars sec))"

definition dq :: string where
  \<comment> \<open>the double quote of the generated statements\<close>
  "dq = [CHR 0x22]"

definition preamble_stmt :: "store \<Rightarrow> model \<Rightarrow> field \<Rightarrow> string" where
  \<comment> \<open>the body of \<^verbatim>\<open>sec.fields.map(f => ...)\<close> in \<^verbatim>\<open>buildPreambleForSection\<close>\<close>
  "preamble_stmt values sec f =
     (let val = lookup values (keyFor (sec_id sec) (f_name f));
          cfg = (case sec_directives sec (f_name f) of Some c \<Rightarrow> c | None \<Rightarrow> Map.empty);
          promptMsg = replace_quotes
                        (str_or (cfg ''prompt'')
                           (''Please input '' @ (if f_label f \<noteq> [] then f_label f else f_name f)))
      in if \<not> hasVal val then ''DIALOG '' @ dq @ promptMsg @ dq @ '', &'' @ f_name f
         else if f_type f = ''number'' \<and> \<not> is_nan (to_number val)
           then ''&'' @ f_name f @ '' = '' @ to_string val
         else if f_type f = ''checkbox''
           then ''&'' @ f_name f @ '' = '' @ (if truthy val then ''1'' else ''0'')
         else ''&'' @ f_name f @ '' = '' @ dq @ replace_quotes (to_string val) @ dq)"

definition buildPreambleForSection :: "store \<Rightarrow> model \<Rightarrow> string list" where
  \<comment> \<open>\<open>values\<close> is the state of the component the function closes over\<close>
  "buildPreambleForSection values sec = map (preamble_stmt values sec) (sec_fields sec)"

section \<open>The specification's side and sample programs\<close>

subsection \<open>Sample programs and models\<close>

definition bit_diameter_line :: string where
  \<comment> \<open>the directive of the scenario, behind the comment marker \<^verbatim>\<open>'\<close>\<close>
  "bit_diameter_line =
     CHR 0x27 # '' @input &BitDiameter type=number min=0.0625 max=1 step=0.001 label='' @ dq
       @ ''Bit Diameter (in)'' @ dq @ '' default=0.25''"

definition rate_text :: string where
  \<comment> \<open>a program of one line: a number field offered as a closed choice\<close>
  "rate_text = CHR 0x27 # '' @input &Rate type=number options=120,Infinity''"

definition x_text :: string where
  \<comment> \<open>a program of one line: a directive that gives \<^verbatim>\<open>x\<close> the default 2\<close>
  "x_text = CHR 0x27 # '' @input &x default=2''"

definition constructor_text :: string where
  \<comment> \<open>a program of one line: a checkmark on a variable named \<^verbatim>\<open>constructor\<close>\<close>
  "constructor_text = CHR 0x27 # '' @checkmark constructor''"

definition circle_model :: model where
  \<comment> \<open>a section whose one checkmark variable is \<^verbatim>\<open>RanCircle\<close>\<close>
  "circle_model =
     \<lparr>sec_id = ''sec0'', sec_title = ''Circle Cutter'', sec_start = 1, sec_end = 2,
      sec_text = CHR 0x27 # '' @checkmark $RanCircle'',
      sec_directives = Map.empty, sec_fields = [], sec_checkVars = [''RanCircle'']\<rparr>"

definition radius_model :: model where
  \<comment> \<open>a section with the one number field \<^verbatim>\<open>Radius\<close>, labelled and with no prompt\<close>
  "radius_model =
     \<lparr>sec_id = ''sec0'', sec_title = ''Circle Cutter'', sec_start = 1, sec_end = 2,
      sec_text = CHR 0x27 # '' @input &Radius type=number label=Radius_in'',
      sec_directives = [''Radius'' \<mapsto> [''type'' \<mapsto> ''number'', ''label'' \<mapsto> ''Radius_in'']],
      sec_fields = [\<lparr>f_name = ''Radius'', f_type = ''number'', f_label = ''Radius_in'',
                     f_default = JStr [], f_options = None, f_min = None, f_max = None,
                     f_step = None, f_placeholder = None\<rparr>],
      sec_checkVars = []\<rparr>"

subsection \<open>The preamble as the specification words it\<close>

definition claimed_stmt :: "store \<Rightarrow> model \<Rightarrow> field \<Rightarrow> string" where
  \<comment> \<open>the statement of one field as the specification words it: a prompt attribute that
      is present is the message, and a number is assigned bare when it is finite\<close>
  "claimed_stmt values sec f =
     (let val = lookup values (keyFor (sec_id sec) (f_name f));
          cfg = (case sec_directives sec (f_name f) of Some c \<Rightarrow> c | None \<Rightarrow> Map.empty);
          msg = (case cfg ''prompt'' of
                   Some p \<Rightarrow> replace_quotes p
                 | None \<Rightarrow> ''Please input '' @ (if f_label f \<noteq> [] then f_label f else f_name f))
      in if val = JStr [] \<or> val = JNull \<or> val = JUndefined
           then ''DIALOG '' @ dq @ msg @ dq @ '', &'' @ f_name f
         else if f_type f = ''number'' \<and> is_finite (to_number val)
           then ''&'' @ f_name f @ '' = '' @ to_string val
         else if f_type f = ''checkbox''
           then ''&'' @ f_name f @ '' = '' @ (if truthy val then ''1'' else ''0'')
         else ''&'' @ f_name f @ '' = '' @ dq @ replace_quotes (to_string val) @ dq)"

subsection \<open>Completion as the specification words it\<close>

definition claimed_complete :: "store \<Rightarrow> model \<Rightarrow> bool" where
  \<comment> \<open>the list of checkmark variables is not empty, and one of them is present in the
      external state (an entry that is neither \<^verbatim>\<open>undefined\<close> nor \<^verbatim>\<open>null\<close>) and is a
      finite number other than zero or, when not numeric, truthy\<close>
  "claimed_complete state sec =
     (sec_checkVars sec \<noteq> [] \<and>
      list_ex (\<lambda>name.
             case state name of
               None \<Rightarrow> False
             | Some v \<Rightarrow> v \<noteq> JUndefined \<and> v \<noteq> JNull \<and>
                 (if is_finite (to_number v) then \<not> is_zero (to_number v) else truthy v))
           (sec_checkVars sec))"

subsection \<open>Sections put back together\<close>

definition reassemble :: "string list \<Rightarrow> sect list \<Rightarrow> string list" where
  \<comment> \<open>the lines of the sections in order, each behind the header line that precedes its
      range (a range that starts at line 0 has no header line)\<close>
  "reassemble lines secs =
     concat (map (\<lambda>s. (if sec_start s = 0 then [] else [lines ! (sec_start s - 1)])
                        @ slice lines (sec_start s) (sec_end s)) secs)"

definition sec_bound :: "string list \<Rightarrow> (nat \<times> string) list \<Rightarrow> nat \<Rightarrow> nat" where
  \<comment> \<open>the line of header \<open>i\<close>, and the number of lines for the index after the last\<close>
  "sec_bound lines headers i = (if i < length headers then fst (headers ! i) else length lines)"

subsection \<open>Reconciliation, one key at a time\<close>

definition empty_entry :: "jsval option \<Rightarrow> bool" where
  \<comment> \<open>the test of the effect: no entry, or an entry that is empty\<close>
  "empty_entry e = (e = None \<or> e = Some (JStr []) \<or> e = Some JNull \<or> e = Some JUndefined)"

definition put_default :: "store \<Rightarrow> string \<times> jsval \<Rightarrow> store" where
  \<comment> \<open>one step of the effect on a key and the initial value of its field\<close>
  "put_default next kd = (if empty_entry (next (fst kd)) then next(fst kd \<mapsto> snd kd) else next)"

definition default_pairs :: "model list \<Rightarrow> (string \<times> jsval) list" where
  \<comment> \<open>key and initial value of every field of every model, in the order of the two loops\<close>
  "default_pairs ms =
     concat (map (\<lambda>sec. map (\<lambda>f. (keyFor (sec_id sec) (f_name f), field_initial f)) (sec_fields sec)) ms)"

fun settle :: "jsval option \<Rightarrow> jsval list \<Rightarrow> jsval option" where
  \<comment> \<open>what becomes of one entry under the initial values offered to its key in turn\<close>
  "settle e [] = e"
| "settle e (d # ds) = settle (if empty_entry e then Some d else e) ds"

section \<open>The section splitter\<close>

lemma headers_of_empty:
  "(\<forall>l \<in> set ls. header_match l = None) \<Longrightarrow> headers_of ls = []"
  by (simp add: headers_of_def header_at_def)

lemma no_header_plain: "header_match ''MS, 1'' = None" "header_match ''JZ, 0.25'' = None"
  by (simp_all add: header_match_def is_space_def)

text \<open>
  Claim C5. A text none of whose lines matches the section-header pattern yields exactly
  one section: its identifier is \<^verbatim>\<open>sec0\<close>, its title is \<^verbatim>\<open>Main\<close>, it starts at line 0 and
  ends after the last line, and its text is the whole input.
\<close>

theorem headerless_single_section:
  assumes "\<forall>l \<in> set (split_lines code). header_match l = None"
  shows "parseSections code =
           [\<lparr>sec_id = ''sec0'', sec_title = ''Main'', sec_start = 0,
             sec_end = length (split_lines code), sec_text = code\<rparr>]"
  using headers_of_empty [OF assms] by (simp add: parseSections_def)

theorem headerless_single_section_witness:
  "split_lines ''MS, 1\<newline>JZ, 0.25'' = [''MS, 1'', ''JZ, 0.25'']
   \<and> header_match ''MS, 1'' = None \<and> header_match ''JZ, 0.25'' = None
   \<and> parseSections ''MS, 1\<newline>JZ, 0.25'' =
       [\<lparr>sec_id = ''sec0'', sec_title = ''Main'', sec_start = 0, sec_end = 2,
         sec_text = ''MS, 1\<newline>JZ, 0.25''\<rparr>]"
proof -
  have sl: "split_lines ''MS, 1\<newline>JZ, 0.25'' = [''MS, 1'', ''JZ, 0.25'']"
    by (simp add: cons_to_first_def)
  have h: "\<forall>l \<in> set (split_lines ''MS, 1\<newline>JZ, 0.25''). header_match l = None"
    unfolding sl using no_header_plain by simp
  show ?thesis using no_header_plain headerless_single_section [OF h] unfolding sl by simp
qed

section \<open>Field inference on names and directives\<close>

lemma starts_with_iff: "starts_with w s \<longleftrightarrow> (\<exists>q. s = w @ q)"
  by (induction w s rule: starts_with.induct) auto

lemma has_substr_iff: "has_substr w s \<longleftrightarrow> (\<exists>p q. s = p @ w @ q)"
proof (induction s)
  case Nil
  show ?case by auto
next
  case (Cons c cs)
  have "(\<exists>p q. c # cs = p @ w @ q) \<longleftrightarrow> (\<exists>q. c # cs = w @ q) \<or> (\<exists>p q. cs = p @ w @ q)"
  proof
    assume "\<exists>p q. c # cs = p @ w @ q"
    then obtain p q where pq: "c # cs = p @ w @ q" by blast
    show "(\<exists>q. c # cs = w @ q) \<or> (\<exists>p q. cs = p @ w @ q)"
    proof (cases p)
      case Nil
      with pq show ?thesis by auto
    next
      case (Cons a p')
      with pq have "cs = p' @ w @ q" by simp
      then show ?thesis by blast
    qed
  next
    assume "(\<exists>q. c # cs = w @ q) \<or> (\<exists>p q. cs = p @ w @ q)"
    then show "\<exists>p q. c # cs = p @ w @ q"
    proof
      assume "\<exists>q. c # cs = w @ q"
      then obtain q where "c # cs = [] @ w @ q" by auto
      then show ?thesis by blast
    next
      assume "\<exists>p q. cs = p @ w @ q"
      then obtain p q where "c # cs = (c # p) @ w @ q" by auto
      then show ?thesis by blast
    qed
  qed
  with Cons show ?case by (simp add: starts_with_iff)
qed

text \<open>
  Claim C9. For a variable with no type directive (the attribute is missing, or empty),
  if the lower-cased name contains one of diameter, radius, depth, height, width, speed,
  feed, x, y, z, angle, thickness, step, offset, distance, length at any position, the
  inferred type is \<^verbatim>\<open>number\<close>. The single letters match anywhere: the variable \<^verbatim>\<open>Text\<close>
  holds an x and is a number field.
\<close>

theorem substring_infers_number:
  "(cfg ''type'' = None \<or> cfg ''type'' = Some [] \<longrightarrow>
      (\<forall>w p q. w \<in> {''diameter'', ''radius'', ''depth'', ''height'', ''width'', ''speed'', ''feed'',
                     ''x'', ''y'', ''z'', ''angle'', ''thickness'', ''step'', ''offset'',
                     ''distance'', ''length''}
               \<longrightarrow> toLowerCase varName = p @ w @ q
               \<longrightarrow> d_type (inferField varName cfg) = ''number''))
   \<and> d_type (inferField ''Text'' Map.empty) = ''number''"
proof (intro conjI impI allI)
  fix w p q
  assume t: "cfg ''type'' = None \<or> cfg ''type'' = Some []"
    and w: "w \<in> {''diameter'', ''radius'', ''depth'', ''height'', ''width'', ''speed'', ''feed'',
                     ''x'', ''y'', ''z'', ''angle'', ''thickness'', ''step'', ''offset'',
                     ''distance'', ''length''}"
    and s: "toLowerCase varName = p @ w @ q"
  from t have t': "str_or (cfg ''type'') [] = []" by (auto simp: str_or_def)
  from w have "w \<in> set number_words" by (simp add: number_words_def)
  moreover from s have "has_substr w (toLowerCase varName)" by (auto simp: has_substr_iff)
  ultimately have "list_ex (\<lambda>w. has_substr w (toLowerCase varName)) number_words"
    by (auto simp: list_ex_iff)
  with t' show "d_type (inferField varName cfg) = ''number''"
    by (simp add: inferField_def Let_def)
next
  show "d_type (inferField ''Text'' Map.empty) = ''number''"
    by code_simp
qed

theorem substring_infers_number_witness:
  "Map.empty ''type'' = (None :: string option)
   \<and> toLowerCase ''MaxTravel'' = ''ma'' @ ''x'' @ ''travel''
   \<and> d_type (inferField ''MaxTravel'' Map.empty) = ''number''"
proof -
  have a: "Map.empty ''type'' = (None :: string option)" by simp
  have b: "toLowerCase ''MaxTravel'' = ''ma'' @ ''x'' @ ''travel''" by code_simp
  from substring_infers_number [of Map.empty "''MaxTravel''"] a b
  have "d_type (inferField ''MaxTravel'' Map.empty) = ''number''" by blast
  with a b show ?thesis by blast
qed

text \<open>
  Claim C6. Parsing the directive line
  \<^verbatim>\<open>' @input &BitDiameter type=number min=0.0625 max=1 step=0.001 label="Bit Diameter (in)" default=0.25\<close>
  and inferring the field of \<^verbatim>\<open>BitDiameter\<close> from what was parsed gives the type
  \<^verbatim>\<open>number\<close>, the label \<^verbatim>\<open>Bit Diameter (in)\<close> without its quotes, the default 0.25 as a
  number, min 0.0625, max 1 and step 0.001 (no options, no placeholder).
\<close>

theorem bit_diameter_descriptor:
  "inferField ''BitDiameter''
     (case parseDirectivesIn bit_diameter_line ''BitDiameter'' of Some c \<Rightarrow> c | None \<Rightarrow> Map.empty)
   = \<lparr>d_type = ''number'', d_label = ''Bit Diameter (in)'', d_default = JNum (Fin 25 (- 2)),
       d_options = None, d_min = Some (Fin 625 (- 4)), d_max = Some (Fin 1 0),
       d_step = Some (Fin 1 (- 3)), d_placeholder = None\<rparr>"
  by code_simp

section \<open>Completion of a section\<close>

lemma number_of_0_1:
  "to_number (JStr ''0'') = Fin 0 0" "to_number (JStr ''1'') = Fin 1 0"
  by code_simp+

text \<open>
  What the completion evaluator computes, for every section and every external state. On
  the variables that the state holds, and on the names that no object inherits, it is the
  evaluation of the specification; a listed name that the state does not hold and that
  every object inherits counts as complete. A state entry that is the string 0 gives
  incomplete for a section with that one variable, the string 1 gives complete, and a
  section with no checkmark variable is not complete.
\<close>

lemma complete_at_name:
  "(let v = read_prop configVars name
    in if prop_missing v then False
       else if is_finite (prop_number v) then \<not> is_zero (prop_number v)
       else prop_truthy v)
   = (case configVars name of
        Some v \<Rightarrow> v \<noteq> JUndefined \<and> v \<noteq> JNull \<and>
          (if is_finite (to_number v) then \<not> is_zero (to_number v) else truthy v)
      | None \<Rightarrow> name \<in> set object_prototype_names)"
proof (cases "configVars name")
  case None
  have "\<not> is_finite NaN" by (simp add: is_finite_def)
  with None show ?thesis
    by (simp add: read_prop_def prop_missing_def prop_number_def prop_truthy_def Let_def)
next
  case (Some v)
  then show ?thesis
    by (simp add: read_prop_def prop_missing_def prop_number_def prop_truthy_def Let_def)
qed

lemma section_complete_cases:
  "(isSectionComplete configVars sec \<longleftrightarrow>
      sec_checkVars sec \<noteq> [] \<and>
      (\<exists>name \<in> set (sec_checkVars sec).
         case configVars name of
           Some v \<Rightarrow> v \<noteq> JUndefined \<and> v \<noteq> JNull \<and>
             (if is_finite (to_number v) then \<not> is_zero (to_number v) else truthy v)
         | None \<Rightarrow> name \<in> set object_prototype_names))
   \<and> (sec_checkVars sec = [v] \<and> configVars v = Some (JStr ''0'') \<longrightarrow> \<not> isSectionComplete configVars sec)
   \<and> (sec_checkVars sec = [v] \<and> configVars v = Some (JStr ''1'') \<longrightarrow> isSectionComplete configVars sec)
   \<and> (sec_checkVars sec = [] \<longrightarrow> \<not> isSectionComplete configVars sec)"
proof -
  have iff: "isSectionComplete configVars sec \<longleftrightarrow>
      sec_checkVars sec \<noteq> [] \<and>
      (\<exists>name \<in> set (sec_checkVars sec).
         case configVars name of
           Some v \<Rightarrow> v \<noteq> JUndefined \<and> v \<noteq> JNull \<and>
             (if is_finite (to_number v) then \<not> is_zero (to_number v) else truthy v)
         | None \<Rightarrow> name \<in> set object_prototype_names)" for configVars sec
    unfolding isSectionComplete_def complete_at_name list_ex_iff by simp
  have fz: "is_finite (Fin 0 0)" "is_zero (Fin 0 0)" "is_finite (Fin 1 0)" "\<not> is_zero (Fin 1 0)"
    by (simp_all add: is_finite_def is_zero_def)
  have zero: "sec_checkVars sec = [v] \<and> configVars v = Some (JStr ''0'') \<longrightarrow> \<not> isSectionComplete configVars sec"
    unfolding iff by (simp add: number_of_0_1 fz)
  have one: "sec_checkVars sec = [v] \<and> configVars v = Some (JStr ''1'') \<longrightarrow> isSectionComplete configVars sec"
    unfolding iff by (simp add: number_of_0_1 fz)
  have none: "sec_checkVars sec = [] \<longrightarrow> \<not> isSectionComplete configVars sec"
    unfolding iff by simp
  show ?thesis by (intro conjI iff zero one none)
qed

lemma section_complete_claimed:
  assumes "\<forall>name \<in> set (sec_checkVars sec). configVars name \<noteq> None \<or> name \<notin> set object_prototype_names"
  shows "isSectionComplete configVars sec = claimed_complete configVars sec"
proof -
  have "(case configVars name of
           Some v \<Rightarrow> v \<noteq> JUndefined \<and> v \<noteq> JNull \<and>
             (if is_finite (to_number v) then \<not> is_zero (to_number v) else truthy v)
         | None \<Rightarrow> name \<in> set object_prototype_names)
        = (case configVars name of
             None \<Rightarrow> False
           | Some v \<Rightarrow> v \<noteq> JUndefined \<and> v \<noteq> JNull \<and>
               (if is_finite (to_number v) then \<not> is_zero (to_number v) else truthy v))"
    if "name \<in> set (sec_checkVars sec)" for name
    using assms that by (cases "configVars name") auto
  then show ?thesis
    unfolding claimed_complete_def list_ex_iff
      section_complete_cases [where configVars = configVars and sec = sec, THEN conjunct1]
    by (metis (no_types, lifting))
qed

lemma circle_model_incomplete:
  "\<not> isSectionComplete [''RanCircle'' \<mapsto> JStr ''0''] circle_model"
  using section_complete_cases [where sec = circle_model and v = "''RanCircle''"
      and configVars = "[''RanCircle'' \<mapsto> JStr ''0'']", THEN conjunct2, THEN conjunct1]
  by (simp add: circle_model_def)

lemma circle_model_complete:
  "isSectionComplete [''RanCircle'' \<mapsto> JStr ''1''] circle_model"
  using section_complete_cases [where sec = circle_model and v = "''RanCircle''"
      and configVars = "[''RanCircle'' \<mapsto> JStr ''1'']", THEN conjunct2, THEN conjunct2, THEN conjunct1]
  by (simp add: circle_model_def)

text \<open>
  Claim C4 at a checkmark variable whose name every object inherits. The program
  \<^verbatim>\<open>' @checkmark constructor\<close> has one section with the checkmark variable
  \<^verbatim>\<open>constructor\<close>. With an external state that holds no variable at all, the read
  \<^verbatim>\<open>configVars?.[name]\<close> finds the function that the state object inherits: it is neither
  \<^verbatim>\<open>undefined\<close> nor \<^verbatim>\<open>null\<close>, it converts to NaN and it is truthy, and the section is
  reported complete. The claim, and the comment in the code (true if any listed variable
  exists and is not zero), have it incomplete: no listed variable is in the state.
\<close>

theorem inherited_name_complete:
  "map sec_checkVars (sectionModels constructor_text) = [[''constructor'']]
   \<and> map (isSectionComplete Map.empty) (sectionModels constructor_text) = [True]
   \<and> map (claimed_complete Map.empty) (sectionModels constructor_text) = [False]"
  by code_simp

section \<open>The preamble compiler\<close>

text \<open>
  Claim C3 as stated fails. The program \<^verbatim>\<open>' @input &Rate type=number options=120,Infinity\<close>
  has one section with the number field \<^verbatim>\<open>Rate\<close>; choosing \<^verbatim>\<open>Infinity\<close> stores that
  string. It converts to a number that is not NaN and not finite: the compiler emits the
  bare assignment \<^verbatim>\<open>&Rate = Infinity\<close>, where the claim has the quoted string.
\<close>

theorem preamble_infinity_counterexample:
  "map (buildPreambleForSection [''sec0::Rate'' \<mapsto> JStr ''Infinity'']) (sectionModels rate_text)
     = [[''&Rate = Infinity'']]
   \<and> map (\<lambda>m. map (claimed_stmt [''sec0::Rate'' \<mapsto> JStr ''Infinity''] m) (sec_fields m))
         (sectionModels rate_text)
     = [[''&Rate = '' @ dq @ ''Infinity'' @ dq]]
   \<and> \<not> is_finite (to_number (JStr ''Infinity''))
   \<and> map (buildPreambleForSection [''sec0::Rate'' \<mapsto> JStr ''Infinity'']) (sectionModels rate_text)
     \<noteq> map (\<lambda>m. map (claimed_stmt [''sec0::Rate'' \<mapsto> JStr ''Infinity''] m) (sec_fields m))
         (sectionModels rate_text)"
proof -
  have a: "map (buildPreambleForSection [''sec0::Rate'' \<mapsto> JStr ''Infinity'']) (sectionModels rate_text)
             = [[''&Rate = Infinity'']]"
    by code_simp
  have b: "map (\<lambda>m. map (claimed_stmt [''sec0::Rate'' \<mapsto> JStr ''Infinity''] m) (sec_fields m))
             (sectionModels rate_text)
           = [[''&Rate = '' @ dq @ ''Infinity'' @ dq]]"
    by code_simp
  have c: "\<not> is_finite (to_number (JStr ''Infinity''))"
    by code_simp
  have d: "[[''&Rate = Infinity'']] \<noteq> [[''&Rate = '' @ dq @ ''Infinity'' @ dq]]"
    by (simp add: dq_def)
  show ?thesis unfolding a b using c d by simp
qed

text \<open>
  Claim C3, amended. The compiler emits one statement per field, in the order of the
  fields. For a field whose stored value is the empty string, \<^verbatim>\<open>null\<close> or \<^verbatim>\<open>undefined\<close>
  (or missing) the statement is \<^verbatim>\<open>DIALOG "msg", &Name\<close>, where \<open>msg\<close> is the prompt attribute of
  the field's directive when it is present and not empty, and otherwise \<^verbatim>\<open>Please input\<close>
  and the label (the name when the label is empty), in both cases with its double quotes
  doubled. Otherwise, for a field of type number whose value does not convert to NaN the
  statement is the bare assignment of the value as text; otherwise, for a checkbox it
  assigns 1 to a truthy value and 0 to a falsy one; otherwise it assigns the value as
  text in double quotes, its double quotes doubled.
\<close>

theorem preamble_statements:
  "length (buildPreambleForSection values sec) = length (sec_fields sec) \<and>
   (\<forall>i f val dflt msg.
      i < length (sec_fields sec) \<and> f = sec_fields sec ! i \<and>
      val = lookup values (keyFor (sec_id sec) (f_name f)) \<and>
      dflt = ''Please input '' @ (if f_label f \<noteq> [] then f_label f else f_name f) \<and>
      msg = (case sec_directives sec (f_name f) of
               None \<Rightarrow> dflt
             | Some cfg \<Rightarrow> (case cfg ''prompt'' of
                              None \<Rightarrow> dflt
                            | Some p \<Rightarrow> if p = [] then dflt else p))
      \<longrightarrow> buildPreambleForSection values sec ! i =
            (if val = JStr [] \<or> val = JNull \<or> val = JUndefined
               then ''DIALOG '' @ dq @ replace_quotes msg @ dq @ '', &'' @ f_name f
             else if f_type f = ''number'' \<and> to_number val \<noteq> NaN
               then ''&'' @ f_name f @ '' = '' @ to_string val
             else if f_type f = ''checkbox''
               then ''&'' @ f_name f @ '' = '' @ (if truthy val then ''1'' else ''0'')
             else ''&'' @ f_name f @ '' = '' @ dq @ replace_quotes (to_string val) @ dq))"
  by (auto simp: buildPreambleForSection_def preamble_stmt_def Let_def hasVal_def is_nan_def
        str_or_def split: option.splits)

lemma number_3_5:
  "to_number (JNum (Fin 35 (- 1))) \<noteq> NaN" "to_string (JNum (Fin 35 (- 1))) = ''3.5''"
  by (code_simp+)

theorem preamble_statements_witness:
  "buildPreambleForSection [''sec0::Radius'' \<mapsto> JStr []] radius_model ! 0
     = ''DIALOG '' @ dq @ ''Please input Radius_in'' @ dq @ '', &Radius''
   \<and> buildPreambleForSection [''sec0::Radius'' \<mapsto> JNum (Fin 35 (- 1))] radius_model ! 0
     = ''&Radius = 3.5''"
proof -
  have a: "buildPreambleForSection [''sec0::Radius'' \<mapsto> JStr []] radius_model ! 0
             = ''DIALOG '' @ dq @ ''Please input Radius_in'' @ dq @ '', &Radius''"
    using preamble_statements [of "[''sec0::Radius'' \<mapsto> JStr []]" radius_model,
        THEN conjunct2, rule_format,
        of 0 "sec_fields radius_model ! 0" "JStr []" "''Please input Radius_in''"
           "''Please input Radius_in''"]
    by (simp add: radius_model_def keyFor_def lookup_def dq_def)
  have b: "buildPreambleForSection [''sec0::Radius'' \<mapsto> JNum (Fin 35 (- 1))] radius_model ! 0
             = ''&Radius = 3.5''"
    using preamble_statements [of "[''sec0::Radius'' \<mapsto> JNum (Fin 35 (- 1))]" radius_model,
        THEN conjunct2, rule_format,
        of 0 "sec_fields radius_model ! 0" "JNum (Fin 35 (- 1))" "''Please input Radius_in''"
           "''Please input Radius_in''"]
      number_3_5
    by (simp add: radius_model_def keyFor_def lookup_def)
  from a b show ?thesis by blast
qed

section \<open>The checkmark parser\<close>

lemma alpha_word: "is_alpha l \<Longrightarrow> is_word l"
  by (simp add: is_word_def)

lemma checkmark_ref_shape:
  assumes "checkmark_ref s = Some (raw, r)"
  shows "\<exists>amp dol l w. raw = amp @ dol @ l # w \<and> (amp = [] \<or> amp = ''&'') \<and> (dol = [] \<or> dol = ''$'')
           \<and> is_alpha l \<and> list_all is_word w"
proof -
  obtain amp s1 where a: "opt_char (CHR ''&'') s = (amp, s1)" by (cases "opt_char (CHR ''&'') s")
  obtain dol s2 where d: "opt_char (CHR ''$'') s1 = (dol, s2)" by (cases "opt_char (CHR ''$'') s1")
  from a have a': "amp = [] \<or> amp = ''&''" by (auto simp: opt_char_def split: list.splits if_splits)
  from d have d': "dol = [] \<or> dol = ''$''" by (auto simp: opt_char_def split: list.splits if_splits)
  from assms a d obtain l t where "raw = amp @ dol @ l # takeWhile is_word t" "is_alpha l"
    by (auto simp: checkmark_ref_def split: list.splits if_splits)
  moreover have "list_all is_word (takeWhile is_word t)"
    by (simp add: list_all_iff) (metis set_takeWhileD)
  ultimately show ?thesis using a' d' by blast
qed

lemma checkmark_loop_shape:
  "raw \<in> set (checkmark_loop bol s) \<Longrightarrow>
   \<exists>amp dol l w. raw = amp @ dol @ l # w \<and> (amp = [] \<or> amp = ''&'') \<and> (dol = [] \<or> dol = ''$'')
      \<and> is_alpha l \<and> list_all is_word w"
proof (induction bol s rule: checkmark_loop.induct)
  case (1 bol s)
  show ?case
  proof (cases "if bol then checkmark_at s else None")
    case None
    with "1.prems" obtain c cs where s: "s = c # cs"
      and mem: "raw \<in> set (checkmark_loop (is_line_term c) cs)"
      by (subst (asm) checkmark_loop.simps) (auto split: list.splits)
    from "1.IH"(1) [OF None s mem] show ?thesis .
  next
    case (Some x)
    obtain r0 rest where x: "x = (r0, rest)" by (cases x) auto
    from Some x have at: "checkmark_at s = Some (r0, rest)" by (auto split: if_splits)
    from "1.prems" Some x have
      "raw = r0 \<or> raw \<in> set (checkmark_loop (consumed_last_lt s rest) rest)"
      by (subst (asm) checkmark_loop.simps) auto
    then show ?thesis
    proof
      assume r: "raw = r0"
      from at obtain s2 s3 where "checkmark_ref s2 = Some (r0, s3)"
        by (auto simp: checkmark_at_def split: option.splits)
      from checkmark_ref_shape [OF this] r show ?thesis by simp
    next
      assume "raw \<in> set (checkmark_loop (consumed_last_lt s rest) rest)"
      from "1.IH"(2) [OF Some x [symmetric] this] show ?thesis .
    qed
  qed
qed

lemma trim_no_space: "\<forall>c \<in> set s. \<not> is_space c \<Longrightarrow> trim s = s"
proof -
  assume a: "\<forall>c \<in> set s. \<not> is_space c"
  then have "dropWhile is_space s = s" by (cases s) simp_all
  moreover from a have "dropWhile is_space (rev s) = rev s" by (cases "rev s") auto
  ultimately show ?thesis by (simp add: trim_def)
qed

lemma word_not_space: "is_word c \<Longrightarrow> \<not> is_space c"
  by (auto simp: is_word_def is_alpha_def is_digit_def is_space_def)

text \<open>
  What the checkmark parser returns, for every text: each name is a letter followed by
  word characters, or such a name behind \<^verbatim>\<open>$\<close>. The second form is what is left of a
  reference written with both sigils.
\<close>

lemma parseCheckmarksIn_names:
  assumes "n \<in> set (parseCheckmarksIn t)"
  shows "\<exists>l w. is_alpha l \<and> list_all is_word w \<and> (n = l # w \<or> n = CHR ''$'' # l # w)"
proof -
  from assms obtain raw where mem: "raw \<in> set (checkmark_loop True t)" and n: "n = strip_sigil (trim raw)"
    by (auto simp: parseCheckmarksIn_def)
  from checkmark_loop_shape [OF mem] obtain amp dol l w where
    raw: "raw = amp @ dol @ l # w" and amp: "amp = [] \<or> amp = ''&''" and dol: "dol = [] \<or> dol = ''$''"
    and l: "is_alpha l" and w: "list_all is_word w"
    by blast
  have lw: "\<not> is_space l" "\<forall>c \<in> set w. \<not> is_space c"
    using l w word_not_space alpha_word by (auto simp: list_all_iff)
  have sig: "\<not> is_space (CHR ''&'')" "\<not> is_space (CHR ''$'')" by (simp_all add: is_space_def)
  have "trim raw = raw"
    by (rule trim_no_space) (use raw amp dol lw sig in auto)
  with n have n': "n = strip_sigil raw" by simp
  have la: "l \<noteq> CHR ''$''" "l \<noteq> CHR ''&''" using l by (auto simp: is_alpha_def)
  from amp dol have "n = l # w \<or> n = CHR ''$'' # l # w"
    unfolding n' raw using la by (auto simp: strip_sigil_def)
  with l w show ?thesis by blast
qed

text \<open>
  Claim C8 holds but for the last part: the names come in the order of the matches, with
  duplicates kept, and a reference with one sigil or none gives a name with no sigil. At
  a reference that carries both sigils the pattern takes \<^verbatim>\<open>&$Done\<close>, the replacement
  commented as \<^verbatim>\<open>normalize: strip leading & or $\<close> strips one character, and the name
  returned begins with \<^verbatim>\<open>$\<close>.
\<close>

theorem checkmark_double_sigil:
  "parseCheckmarksIn (CHR 0x27 # '' @checkmark &$Done'') = [''$Done'']"
  by code_simp

section \<open>Reassembling the text from its sections\<close>

lemma header_idx: "map fst (headers_of ls) = filter (\<lambda>i. header_match (ls ! i) \<noteq> None) [0..<length ls]"
proof -
  have "map fst (concat (map (header_at ls) xs)) = filter (\<lambda>i. header_match (ls ! i) \<noteq> None) xs" for xs
    by (induction xs) (auto simp: header_at_def split: option.splits)
  then show ?thesis by (simp add: headers_of_def)
qed

lemma header_idx_sorted: "sorted_wrt (<) (map fst (headers_of ls))"
  unfolding header_idx by (rule sorted_wrt_filter) (simp add: sorted_wrt_upt)

lemma header_idx_bound: "i < length (headers_of ls) \<Longrightarrow> fst (headers_of ls ! i) < length ls"
proof -
  assume a: "i < length (headers_of ls)"
  then have "map fst (headers_of ls) ! i \<in> set (map fst (headers_of ls))"
    by (metis length_map nth_mem)
  then have "map fst (headers_of ls) ! i < length ls"
    unfolding header_idx by auto
  with a show ?thesis by simp
qed

lemma header_idx_mono:
  "i < j \<Longrightarrow> j < length (headers_of ls) \<Longrightarrow> fst (headers_of ls ! i) < fst (headers_of ls ! j)"
  using header_idx_sorted [of ls] by (simp add: sorted_wrt_iff_nth_less)

lemma slice_append: "a \<le> b \<Longrightarrow> b \<le> c \<Longrightarrow> slice xs a b @ slice xs b c = slice xs a c"
proof -
  assume ab: "a \<le> b" and bc: "b \<le> c"
  have "take (b - a) (drop a xs) @ take (c - b) (drop (b - a) (drop a xs)) = take ((b - a) + (c - b)) (drop a xs)"
    by (simp add: take_add)
  with ab bc show ?thesis by (simp add: slice_def)
qed

lemma slice_head: "a < b \<Longrightarrow> a < length xs \<Longrightarrow> slice xs a b = xs ! a # slice xs (Suc a) b"
proof -
  assume ab: "a < b" and al: "a < length xs"
  from al have "drop a xs = xs ! a # drop (Suc a) xs" by (simp add: Cons_nth_drop_Suc)
  moreover from ab obtain k where "b - a = Suc k" "b - Suc a = k" by (cases "b - a") auto
  ultimately show ?thesis by (simp add: slice_def)
qed

lemma section_piece:
  assumes "i < length (headers_of ls)"
  shows "(if sec_start (section_at ls (headers_of ls) i) = 0 then []
          else [ls ! (sec_start (section_at ls (headers_of ls) i) - 1)])
         @ slice ls (sec_start (section_at ls (headers_of ls) i)) (sec_end (section_at ls (headers_of ls) i))
         = slice ls (sec_bound ls (headers_of ls) i) (sec_bound ls (headers_of ls) (Suc i))"
proof -
  let ?hs = "headers_of ls"
  have lt: "fst (?hs ! i) < length ls" using assms by (rule header_idx_bound)
  have nx: "fst (?hs ! i) < sec_bound ls ?hs (Suc i)"
    using lt header_idx_mono [of i "Suc i" ls] by (simp add: sec_bound_def)
  have "sec_end (section_at ls ?hs i) = sec_bound ls ?hs (Suc i)"
    by (simp add: section_at_def sec_bound_def Let_def)
  moreover have "sec_start (section_at ls ?hs i) = Suc (fst (?hs ! i))"
    by (simp add: section_at_def Let_def)
  moreover have "sec_bound ls ?hs i = fst (?hs ! i)" using assms by (simp add: sec_bound_def)
  ultimately show ?thesis using slice_head [OF nx lt] by simp
qed

lemma sec_bound_mono: "i \<le> length (headers_of ls) \<Longrightarrow> j \<le> i \<Longrightarrow>
    sec_bound ls (headers_of ls) j \<le> sec_bound ls (headers_of ls) i"
proof -
  assume il: "i \<le> length (headers_of ls)" and ji: "j \<le> i"
  show ?thesis
  proof (cases "j = i")
    case True
    then show ?thesis by simp
  next
    case False
    with ji have lt: "j < i" by simp
    show ?thesis
    proof (cases "i < length (headers_of ls)")
      case True
      with lt header_idx_mono [of j i ls] show ?thesis by (simp add: sec_bound_def)
    next
      case False
      with il have "i = length (headers_of ls)" by simp
      with lt header_idx_bound [of j ls] show ?thesis by (simp add: sec_bound_def)
    qed
  qed
qed

lemma pieces_concat:
  "k \<le> length (headers_of ls) \<Longrightarrow>
   concat (map (\<lambda>i. slice ls (sec_bound ls (headers_of ls) i) (sec_bound ls (headers_of ls) (Suc i))) [0..<k])
   = slice ls (sec_bound ls (headers_of ls) 0) (sec_bound ls (headers_of ls) k)"
proof (induction k)
  case 0
  show ?case by (simp add: slice_def)
next
  case (Suc k)
  have a: "sec_bound ls (headers_of ls) 0 \<le> sec_bound ls (headers_of ls) k"
    using Suc.prems by (intro sec_bound_mono) simp_all
  have b: "sec_bound ls (headers_of ls) k \<le> sec_bound ls (headers_of ls) (Suc k)"
    using Suc.prems by (intro sec_bound_mono) simp_all
  from Suc show ?case by (simp add: slice_append [OF a b])
qed

lemma reassemble_sections:
  assumes "headers_of ls \<noteq> []"
  shows "reassemble ls (map (section_at ls (headers_of ls)) [0..<length (headers_of ls)])
         = drop (fst (hd (headers_of ls))) ls"
proof -
  let ?hs = "headers_of ls"
  have "reassemble ls (map (section_at ls ?hs) [0..<length ?hs])
        = concat (map (\<lambda>i. slice ls (sec_bound ls ?hs i) (sec_bound ls ?hs (Suc i))) [0..<length ?hs])"
    unfolding reassemble_def map_map comp_def
    by (rule arg_cong [where f = concat], rule map_cong [OF refl]) (simp add: section_piece)
  also have "\<dots> = slice ls (sec_bound ls ?hs 0) (sec_bound ls ?hs (length ?hs))"
    by (rule pieces_concat) simp
  also have "\<dots> = drop (fst (hd ?hs)) ls"
    using assms by (simp add: sec_bound_def slice_def hd_conv_nth)
  finally show ?thesis .
qed

lemma first_header:
  assumes "headers_of ls = h # rest"
  shows "fst h < length ls \<and> header_match (ls ! fst h) \<noteq> None
         \<and> (\<forall>j < fst h. header_match (ls ! j) = None)"
proof -
  let ?P = "\<lambda>i. header_match (ls ! i) \<noteq> None"
  have eq: "filter ?P [0..<length ls] = fst h # map fst rest"
    using assms header_idx [of ls] by simp
  have "fst h \<in> set (filter ?P [0..<length ls])" unfolding eq by simp
  then have a: "fst h < length ls" and b: "?P (fst h)" by simp_all
  have "sorted_wrt (<) (fst h # map fst rest)"
    using header_idx_sorted [of ls] assms by simp
  then have least: "\<forall>z \<in> set (map fst rest). fst h < z" by simp
  have c: "\<forall>j < fst h. header_match (ls ! j) = None"
  proof (intro allI impI, rule ccontr)
    fix j assume lt: "j < fst h" and ne: "header_match (ls ! j) \<noteq> None"
    from lt a have "j < length ls" by simp
    with ne have "j \<in> set (filter ?P [0..<length ls])" by simp
    then have "j = fst h \<or> j \<in> set (map fst rest)" unfolding eq by simp
    with least lt show False by auto
  qed
  from a b c show ?thesis by simp
qed

lemma section_at_range:
  assumes "i < length (headers_of ls)"
  shows "sec_start (section_at ls (headers_of ls) i) = Suc (fst (headers_of ls ! i))"
    and "sec_end (section_at ls (headers_of ls) i) = sec_bound ls (headers_of ls) (Suc i)"
    and "sec_start (section_at ls (headers_of ls) i) \<le> sec_end (section_at ls (headers_of ls) i)"
    and "sec_end (section_at ls (headers_of ls) i) \<le> length ls"
    and "header_match (ls ! (sec_start (section_at ls (headers_of ls) i) - 1)) \<noteq> None"
    and "sec_text (section_at ls (headers_of ls) i)
         = join_lines (slice ls (sec_start (section_at ls (headers_of ls) i))
                               (sec_end (section_at ls (headers_of ls) i)))"
proof -
  let ?hs = "headers_of ls"
  show s: "sec_start (section_at ls ?hs i) = Suc (fst (?hs ! i))"
    by (simp add: section_at_def Let_def)
  show e: "sec_end (section_at ls ?hs i) = sec_bound ls ?hs (Suc i)"
    by (simp add: section_at_def sec_bound_def Let_def)
  have lt: "fst (?hs ! i) < length ls" using assms by (rule header_idx_bound)
  have "fst (?hs ! i) < sec_bound ls ?hs (Suc i)"
    using lt header_idx_mono [of i "Suc i" ls] by (simp add: sec_bound_def)
  with s e show "sec_start (section_at ls ?hs i) \<le> sec_end (section_at ls ?hs i)" by simp
  show "sec_end (section_at ls ?hs i) \<le> length ls"
    unfolding e using header_idx_bound [of "Suc i" ls] by (simp add: sec_bound_def less_imp_le)
  have "map fst ?hs ! i \<in> set (map fst ?hs)" using assms by (intro nth_mem) simp
  then have "fst (?hs ! i) \<in> set (map fst ?hs)" using assms by (simp only: nth_map)
  then have "fst (?hs ! i) \<in> set (filter (\<lambda>i. header_match (ls ! i) \<noteq> None) [0..<length ls])"
    by (simp only: header_idx)
  then have "header_match (ls ! fst (?hs ! i)) \<noteq> None"
    by simp
  with s show "header_match (ls ! (sec_start (section_at ls ?hs i) - 1)) \<noteq> None" by simp
  show "sec_text (section_at ls ?hs i)
         = join_lines (slice ls (sec_start (section_at ls ?hs i)) (sec_end (section_at ls ?hs i)))"
    by (simp add: section_at_def Let_def)
qed

text \<open>
  Claim C2 as stated fails: the lines before the first header belong to no section. The
  text of three lines \<^verbatim>\<open>a\<close>, \<^verbatim>\<open>#T\<close>, \<^verbatim>\<open>b\<close> has the one section \<^verbatim>\<open>b\<close>; with its
  header line put back the sections give \<^verbatim>\<open>#T\<close>, \<^verbatim>\<open>b\<close>, and the line \<^verbatim>\<open>a\<close> is lost.
\<close>

theorem reassemble_counterexample:
  "split_lines ''a\<newline>#T\<newline>b'' = [''a'', ''#T'', ''b'']
   \<and> parseSections ''a\<newline>#T\<newline>b''
       = [\<lparr>sec_id = ''sec0'', sec_title = ''T'', sec_start = 2, sec_end = 3, sec_text = ''b''\<rparr>]
   \<and> reassemble (split_lines ''a\<newline>#T\<newline>b'') (parseSections ''a\<newline>#T\<newline>b'') = [''#T'', ''b'']
   \<and> join_lines (reassemble (split_lines ''a\<newline>#T\<newline>b'') (parseSections ''a\<newline>#T\<newline>b''))
       \<noteq> ''a\<newline>#T\<newline>b''"
proof -
  have a: "split_lines ''a\<newline>#T\<newline>b'' = [''a'', ''#T'', ''b'']"
    by code_simp
  have b: "parseSections ''a\<newline>#T\<newline>b''
           = [\<lparr>sec_id = ''sec0'', sec_title = ''T'', sec_start = 2, sec_end = 3, sec_text = ''b''\<rparr>]"
    by code_simp
  have c: "reassemble [''a'', ''#T'', ''b'']
             [\<lparr>sec_id = ''sec0'', sec_title = ''T'', sec_start = 2, sec_end = 3, sec_text = ''b''\<rparr>]
           = [''#T'', ''b'']"
    by (simp add: reassemble_def slice_def)
  show ?thesis unfolding a b c by simp
qed

text \<open>
  Claim C2, amended. Split the input into lines at LF or CR LF. The lines of the returned
  sections, in order, each section behind its header line, are the lines of the input
  from the first header line on, and all the lines of the input when it has no header;
  the lines before the first header are in no section. Every section lies inside the
  input, starts on the line after a header line, and ends where the next section's header line stands,
  so the sections are in order and do not overlap. With a header in the input each
  section's text is its lines joined by LF; with none the text of the one section is the
  input itself.
\<close>

theorem sections_reassemble:
  "reassemble (split_lines code) (parseSections code)
     = drop (case headers_of (split_lines code) of [] \<Rightarrow> 0 | h # hs \<Rightarrow> fst h) (split_lines code)
   \<and> (\<forall>h hs. headers_of (split_lines code) = h # hs \<longrightarrow>
         fst h < length (split_lines code) \<and> header_match (split_lines code ! fst h) \<noteq> None \<and>
         (\<forall>j < fst h. header_match (split_lines code ! j) = None))
   \<and> (\<forall>s \<in> set (parseSections code).
         sec_start s \<le> sec_end s \<and> sec_end s \<le> length (split_lines code) \<and>
         (if headers_of (split_lines code) = [] then sec_start s = 0 \<and> sec_text s = code
          else 0 < sec_start s \<and> header_match (split_lines code ! (sec_start s - 1)) \<noteq> None \<and>
               sec_text s = join_lines (slice (split_lines code) (sec_start s) (sec_end s))))
   \<and> (\<forall>i. Suc i < length (parseSections code) \<longrightarrow>
         sec_start (parseSections code ! Suc i) = Suc (sec_end (parseSections code ! i)))"
proof (cases "headers_of (split_lines code) = []")
  case True
  then show ?thesis
    by (simp add: parseSections_def Let_def reassemble_def slice_def)
next
  case False
  let ?ls = "split_lines code"
  let ?hs = "headers_of ?ls"
  from False obtain h rest where hr: "?hs = h # rest" by (cases ?hs) auto
  have ps: "parseSections code = map (section_at ?ls ?hs) [0..<length ?hs]"
    using False by (simp add: parseSections_def Let_def)
  have one: "reassemble ?ls (parseSections code) = drop (case ?hs of [] \<Rightarrow> 0 | h # hs \<Rightarrow> fst h) ?ls"
    unfolding ps using reassemble_sections [OF False] hr by simp
  have two: "\<forall>h hs. ?hs = h # hs \<longrightarrow>
         fst h < length ?ls \<and> header_match (?ls ! fst h) \<noteq> None \<and>
         (\<forall>j < fst h. header_match (?ls ! j) = None)"
    using first_header by blast
  have three: "\<forall>s \<in> set (parseSections code).
         sec_start s \<le> sec_end s \<and> sec_end s \<le> length ?ls \<and>
         (if ?hs = [] then sec_start s = 0 \<and> sec_text s = code
          else 0 < sec_start s \<and> header_match (?ls ! (sec_start s - 1)) \<noteq> None \<and>
               sec_text s = join_lines (slice ?ls (sec_start s) (sec_end s)))"
  proof
    fix s assume "s \<in> set (parseSections code)"
    then obtain i where i: "i < length ?hs" and s: "s = section_at ?ls ?hs i"
      unfolding ps by auto
    show "sec_start s \<le> sec_end s \<and> sec_end s \<le> length ?ls \<and>
         (if ?hs = [] then sec_start s = 0 \<and> sec_text s = code
          else 0 < sec_start s \<and> header_match (?ls ! (sec_start s - 1)) \<noteq> None \<and>
               sec_text s = join_lines (slice ?ls (sec_start s) (sec_end s)))"
      unfolding s using False section_at_range [OF i] by simp
  qed
  have four: "\<forall>i. Suc i < length (parseSections code) \<longrightarrow>
         sec_start (parseSections code ! Suc i) = Suc (sec_end (parseSections code ! i))"
  proof (intro allI impI)
    fix i assume "Suc i < length (parseSections code)"
    then have si: "Suc i < length ?hs" by (simp add: ps)
    then have i: "i < length ?hs" by simp
    show "sec_start (parseSections code ! Suc i) = Suc (sec_end (parseSections code ! i))"
      using si i section_at_range(1) [OF si] section_at_range(2) [OF i]
      by (simp add: ps sec_bound_def)
  qed
  show ?thesis by (intro conjI one two three four)
qed

theorem sections_reassemble_witness:
  "parseSections ''a\<newline>#T\<newline>b\<newline>; # U\<newline>c''
     = [\<lparr>sec_id = ''sec0'', sec_title = ''T'', sec_start = 2, sec_end = 3, sec_text = ''b''\<rparr>,
        \<lparr>sec_id = ''sec1'', sec_title = ''U'', sec_start = 4, sec_end = 5, sec_text = ''c''\<rparr>]
   \<and> headers_of (split_lines ''a\<newline>#T\<newline>b\<newline>; # U\<newline>c'') = [(1, ''T''), (3, ''U'')]
   \<and> reassemble (split_lines ''a\<newline>#T\<newline>b\<newline>; # U\<newline>c'') (parseSections ''a\<newline>#T\<newline>b\<newline>; # U\<newline>c'')
     = drop 1 (split_lines ''a\<newline>#T\<newline>b\<newline>; # U\<newline>c'')
   \<and> sec_start (parseSections ''a\<newline>#T\<newline>b\<newline>; # U\<newline>c'' ! Suc 0)
     = Suc (sec_end (parseSections ''a\<newline>#T\<newline>b\<newline>; # U\<newline>c'' ! 0))"
proof -
  let ?c = "''a\<newline>#T\<newline>b\<newline>; # U\<newline>c''"
  have a: "parseSections ?c
     = [\<lparr>sec_id = ''sec0'', sec_title = ''T'', sec_start = 2, sec_end = 3, sec_text = ''b''\<rparr>,
        \<lparr>sec_id = ''sec1'', sec_title = ''U'', sec_start = 4, sec_end = 5, sec_text = ''c''\<rparr>]"
    by code_simp
  have b: "headers_of (split_lines ?c) = [(1, ''T''), (3, ''U'')]"
    by code_simp
  have len: "Suc 0 < length (parseSections ?c)" unfolding a by simp
  have c: "reassemble (split_lines ?c) (parseSections ?c)
           = drop (case headers_of (split_lines ?c) of [] \<Rightarrow> 0 | h # hs \<Rightarrow> fst h) (split_lines ?c)"
    by (rule sections_reassemble [of ?c, THEN conjunct1])
  have d: "\<forall>i. Suc i < length (parseSections ?c) \<longrightarrow>
              sec_start (parseSections ?c ! Suc i) = Suc (sec_end (parseSections ?c ! i))"
    by (rule sections_reassemble [of ?c, THEN conjunct2, THEN conjunct2, THEN conjunct2])
  from c have c': "reassemble (split_lines ?c) (parseSections ?c) = drop 1 (split_lines ?c)"
    unfolding b by simp
  from d len have d': "sec_start (parseSections ?c ! Suc 0) = Suc (sec_end (parseSections ?c ! 0))"
    by blast
  show ?thesis by (intro conjI a b c' d')
qed

section \<open>Reconciliation of the value store\<close>

lemma reconcile_field_put:
  "reconcile_field sid m f = put_default m (keyFor sid (f_name f), field_initial f)"
  by (simp add: reconcile_field_def put_default_def empty_entry_def Let_def)

lemma reconcile_section_put:
  "reconcile_section m sec
   = foldl put_default m (map (\<lambda>f. (keyFor (sec_id sec) (f_name f), field_initial f)) (sec_fields sec))"
proof -
  have "foldl (reconcile_field sid) m fs
        = foldl put_default m (map (\<lambda>f. (keyFor sid (f_name f), field_initial f)) fs)" for sid fs
    by (induction fs arbitrary: m) (simp_all add: reconcile_field_put)
  then show ?thesis by (simp add: reconcile_section_def)
qed

lemma reconcile_fold_put:
  "foldl reconcile_section m ms = foldl put_default m (default_pairs ms)"
  by (induction ms arbitrary: m) (simp_all add: default_pairs_def reconcile_section_put)

lemma valid_keys_pairs: "valid_keys ms = map fst (default_pairs ms)"
  by (simp add: valid_keys_def default_pairs_def map_concat comp_def)

lemma fold_put_at:
  "foldl put_default m ps k = settle (m k) (map snd (filter (\<lambda>p. fst p = k) ps))"
  by (induction ps arbitrary: m) (auto simp: put_default_def)

lemma reconcile_at:
  "reconcile ms prev k =
     (if k \<in> fst ` set (default_pairs ms)
      then settle (prev k) (map snd (filter (\<lambda>p. fst p = k) (default_pairs ms)))
      else None)"
  by (simp add: reconcile_def reconcile_fold_put valid_keys_pairs fold_put_at restrict_map_def)

lemma settle_keeps: "\<not> empty_entry e \<Longrightarrow> settle e ds = e"
  by (induction ds) simp_all

lemma settle_same:
  "empty_entry e \<Longrightarrow> ds \<noteq> [] \<Longrightarrow> \<forall>d \<in> set ds. d = d0 \<Longrightarrow> settle e ds = Some d0"
proof (induction ds arbitrary: e)
  case Nil
  then show ?case by simp
next
  case (Cons d ds)
  show ?case
  proof (cases "ds = [] \<or> \<not> empty_entry (Some d0)")
    case True
    with Cons.prems show ?thesis by (auto simp: settle_keeps)
  next
    case False
    with Cons.prems Cons.IH [of "Some d0"] show ?thesis by simp
  qed
qed

lemma settle_empty_all:
  "empty_entry (settle e ds) \<Longrightarrow> empty_entry e \<and> (\<forall>d \<in> set ds. empty_entry (Some d))"
proof (induction ds arbitrary: e)
  case Nil
  then show ?case by simp
next
  case (Cons d ds)
  from Cons.prems have a: "empty_entry (settle (if empty_entry e then Some d else e) ds)" by simp
  from Cons.IH [OF a] show ?case by (auto split: if_splits)
qed

lemma settle_some:
  "ds \<noteq> [] \<Longrightarrow> empty_entry e \<Longrightarrow> \<exists>d \<in> set ds. settle e ds = Some d"
proof (induction ds arbitrary: e)
  case Nil
  then show ?case by simp
next
  case (Cons d ds)
  show ?case
  proof (cases "ds = [] \<or> \<not> empty_entry (Some d)")
    case True
    with Cons.prems show ?thesis by (auto simp: settle_keeps)
  next
    case False
    with Cons.prems Cons.IH [of "Some d"] show ?thesis by auto
  qed
qed

lemma settle_idem:
  assumes "\<forall>d \<in> set ds. d \<noteq> JNull \<and> d \<noteq> JUndefined"
  shows "settle (settle e ds) ds = settle e ds"
proof (cases "empty_entry (settle e ds)")
  case False
  then show ?thesis by (rule settle_keeps)
next
  case True
  from settle_empty_all [OF True] have e: "empty_entry e" and all: "\<forall>d \<in> set ds. empty_entry (Some d)"
    by simp_all
  from all assms have same: "\<forall>d \<in> set ds. d = JStr []" by (auto simp: empty_entry_def)
  show ?thesis
  proof (cases "ds = []")
    case True
    then show ?thesis by simp
  next
    case False
    from settle_same [OF e False same] have "settle e ds = Some (JStr [])" .
    moreover from settle_same [OF _ False same, of "Some (JStr [])"]
    have "settle (Some (JStr [])) ds = Some (JStr [])" by (simp add: empty_entry_def)
    ultimately show ?thesis by simp
  qed
qed

lemma field_initial_not_nullish: "field_initial f \<noteq> JNull \<and> field_initial f \<noteq> JUndefined"
  by (simp add: field_initial_def nullish_def)

lemma default_pairs_not_nullish:
  "p \<in> set (default_pairs ms) \<Longrightarrow> snd p \<noteq> JNull \<and> snd p \<noteq> JUndefined"
  by (auto simp: default_pairs_def field_initial_not_nullish)

text \<open>
  Claim C7. Reconciling a store against a list of section models and reconciling the
  result against the same list again gives the same store as reconciling once.
\<close>

theorem reconcile_idempotent:
  "reconcile ms (reconcile ms prev) = reconcile ms prev"
proof
  fix k
  let ?ds = "map snd (filter (\<lambda>p. fst p = k) (default_pairs ms))"
  have nn: "\<forall>d \<in> set ?ds. d \<noteq> JNull \<and> d \<noteq> JUndefined"
    using default_pairs_not_nullish [of _ ms] by auto
  show "reconcile ms (reconcile ms prev) k = reconcile ms prev k"
  proof (cases "k \<in> fst ` set (default_pairs ms)")
    case True
    then have "reconcile ms (reconcile ms prev) k = settle (settle (prev k) ?ds) ?ds"
      by (simp add: reconcile_at)
    also have "\<dots> = settle (prev k) ?ds" using nn by (rule settle_idem)
    also have "\<dots> = reconcile ms prev k" using True by (simp add: reconcile_at)
    finally show ?thesis .
  next
    case False
    then show ?thesis by (simp add: reconcile_at)
  qed
qed

subsection \<open>The keys of the models of a program\<close>

lemma digit_char_val: "d < 10 \<Longrightarrow> digit_val (digit_char d) = d"
  by (simp add: digit_val_def digit_char_def Let_def)

lemma digit_char_not_colon: "d < 10 \<Longrightarrow> digit_char d \<noteq> CHR '':''"
proof
  assume d: "d < 10" and eq: "digit_char d = CHR '':''"
  from eq have "(of_char (digit_char d) :: nat) = of_char (CHR '':'')" by simp
  with d show False by (simp add: digit_char_def)
qed

lemma digits_val_snoc: "digits_val b (ds @ [c]) = b * digits_val b ds + digit_val c"
  by (simp add: digits_val_def)

lemma nat_digits_val: "digits_val 10 (nat_digits n) = n"
proof (induction n rule: nat_digits.induct)
  case (1 n)
  show ?case
  proof (cases "n < 10")
    case True
    then show ?thesis
      by (subst nat_digits.simps) (simp add: digits_val_def digit_char_val)
  next
    case False
    with 1 have "digits_val 10 (nat_digits (n div 10)) = n div 10" by simp
    with False show ?thesis
      by (subst nat_digits.simps) (simp add: digits_val_snoc digit_char_val)
  qed
qed

lemma nat_digits_inj: "nat_digits m = nat_digits n \<Longrightarrow> m = n"
  by (metis nat_digits_val)

lemma nat_digits_no_colon: "CHR '':'' \<notin> set (nat_digits n)"
proof (induction n rule: nat_digits.induct)
  case (1 n)
  show ?case
  proof (cases "n < 10")
    case True
    then show ?thesis
      using digit_char_not_colon [of n] by (subst nat_digits.simps) auto
  next
    case False
    with 1 have "CHR '':'' \<notin> set (nat_digits (n div 10))" by simp
    moreover have "digit_char (n mod 10) \<noteq> CHR '':''" by (rule digit_char_not_colon) simp
    ultimately show ?thesis using False
      by (subst nat_digits.simps) auto
  qed
qed

lemma section_ids:
  "distinct (map sec_id (parseSections code))"
  "s \<in> set (parseSections code) \<Longrightarrow> CHR '':'' \<notin> set (sec_id s)"
proof -
  let ?ls = "split_lines code"
  let ?hs = "headers_of ?ls"
  have id: "sec_id (section_at ?ls ?hs i) = ''sec'' @ nat_digits i" for i
    by (simp add: section_at_def Let_def)
  have "distinct (map (\<lambda>i. ''sec'' @ nat_digits i) [0..<length ?hs])"
    by (auto simp: distinct_map intro!: inj_onI dest: nat_digits_inj)
  then show "distinct (map sec_id (parseSections code))"
    by (simp add: parseSections_def Let_def comp_def id)
  show "CHR '':'' \<notin> set (sec_id s)" if "s \<in> set (parseSections code)"
    using that nat_digits_no_colon by (auto simp: parseSections_def Let_def id split: if_splits)
qed

lemma keyFor_inj:
  assumes "CHR '':'' \<notin> set a" and "CHR '':'' \<notin> set b" and "keyFor a m = keyFor b n"
  shows "a = b \<and> m = n"
proof -
  have tw: "takeWhile (\<lambda>c. c \<noteq> CHR '':'') (keyFor x y) = x" if "CHR '':'' \<notin> set x" for x y
  proof -
    have "takeWhile (\<lambda>c. c \<noteq> CHR '':'') (x @ CHR '':'' # CHR '':'' # y)
          = x @ takeWhile (\<lambda>c. c \<noteq> CHR '':'') (CHR '':'' # CHR '':'' # y)"
      using that by (intro takeWhile_append2) auto
    then show ?thesis by (simp add: keyFor_def)
  qed
  from assms(3) have "takeWhile (\<lambda>c. c \<noteq> CHR '':'') (keyFor a m) = takeWhile (\<lambda>c. c \<noteq> CHR '':'') (keyFor b n)"
    by simp
  with assms(1,2) have "a = b" by (simp add: tw)
  with assms(3) show ?thesis by (simp add: keyFor_def)
qed

lemma field_of_name: "f_name (field_of ds v) = v"
  by (simp add: field_of_def mk_field_def)

lemma inferField_default: "d_default (inferField v cfg) \<noteq> JNull \<and> d_default (inferField v cfg) \<noteq> JUndefined"
  by (simp add: inferField_def Let_def toNumOrEmpty_def split: option.splits)

lemma field_of_initial: "field_initial (field_of ds v) = f_default (field_of ds v)"
  using inferField_default [of v "case ds v of Some c \<Rightarrow> c | None \<Rightarrow> Map.empty"]
  by (simp add: field_initial_def nullish_def field_of_def mk_field_def)

lemma model_fields:
  assumes "m \<in> set (sectionModels code)" and "f \<in> set (sec_fields m)"
  shows "f = field_of (sec_directives m) (f_name f)"
proof -
  from assms(1) obtain s where m: "m = section_model s" by (auto simp: sectionModels_def)
  from assms(2) obtain v where "f = field_of (parseDirectivesIn (sec_text s)) v"
    unfolding m by (auto simp: section_model_def)
  then show ?thesis unfolding m by (simp add: section_model_def field_of_name)
qed

lemma model_ids:
  "distinct (map sec_id (sectionModels code))"
  "m \<in> set (sectionModels code) \<Longrightarrow> CHR '':'' \<notin> set (sec_id m)"
proof -
  have "map sec_id (sectionModels code) = map sec_id (parseSections code)"
    by (simp add: sectionModels_def section_model_def comp_def)
  then show "distinct (map sec_id (sectionModels code))" using section_ids(1) by simp
  show "CHR '':'' \<notin> set (sec_id m)" if "m \<in> set (sectionModels code)"
    using that section_ids(2) by (auto simp: sectionModels_def section_model_def)
qed

lemma model_key_field:
  assumes "m \<in> set (sectionModels code)" and "f \<in> set (sec_fields m)"
    and "m' \<in> set (sectionModels code)" and "f' \<in> set (sec_fields m')"
    and "keyFor (sec_id m) (f_name f) = keyFor (sec_id m') (f_name f')"
  shows "f = f'"
proof -
  from keyFor_inj [OF model_ids(2) [OF assms(1)] model_ids(2) [OF assms(3)] assms(5)]
  have id: "sec_id m = sec_id m'" and nm: "f_name f = f_name f'" by simp_all
  from model_ids(1) [of code] have "inj_on sec_id (set (sectionModels code))"
    by (simp add: distinct_map)
  with id assms(1,3) have "m = m'" by (auto dest: inj_onD)
  with model_fields [OF assms(1,2)] model_fields [OF assms(3,4)] nm show ?thesis by simp
qed

lemma pairs_member:
  "p \<in> set (default_pairs ms) \<longleftrightarrow>
     (\<exists>m \<in> set ms. \<exists>f \<in> set (sec_fields m). p = (keyFor (sec_id m) (f_name f), field_initial f))"
  by (auto simp: default_pairs_def)

lemma reconcile_named:
  assumes "m \<in> set (sectionModels code)" and "f \<in> set (sec_fields m)"
    and "empty_entry (prev (keyFor (sec_id m) (f_name f)))"
  shows "reconcile (sectionModels code) prev (keyFor (sec_id m) (f_name f)) = Some (f_default f)"
proof -
  let ?ms = "sectionModels code"
  let ?k = "keyFor (sec_id m) (f_name f)"
  let ?ds = "map snd (filter (\<lambda>p. fst p = ?k) (default_pairs ?ms))"
  have mem: "(?k, field_initial f) \<in> set (default_pairs ?ms)"
    using assms(1,2) by (auto simp: pairs_member)
  then have ne: "?ds \<noteq> []" by (force simp: filter_empty_conv)
  have same: "\<forall>d \<in> set ?ds. d = field_initial f"
  proof
    fix d assume "d \<in> set ?ds"
    then obtain p where p: "p \<in> set (default_pairs ?ms)" "fst p = ?k" "d = snd p" by auto
    from p(1) obtain m' f' where m': "m' \<in> set ?ms" "f' \<in> set (sec_fields m')"
      and pe: "p = (keyFor (sec_id m') (f_name f'), field_initial f')"
      by (auto simp: pairs_member)
    from p(2) pe have "keyFor (sec_id m) (f_name f) = keyFor (sec_id m') (f_name f')" by simp
    from model_key_field [OF assms(1,2) m' this] have "f = f'" .
    with p(3) pe show "d = field_initial f" by simp
  qed
  have "field_initial f = f_default f"
    using model_fields [OF assms(1,2)] field_of_initial [of "sec_directives m" "f_name f"] by simp
  moreover have "?k \<in> fst ` set (default_pairs ?ms)" using mem by force
  ultimately show ?thesis
    using settle_same [OF assms(3) ne same] by (simp add: reconcile_at)
qed

lemma reconcile_unnamed:
  assumes "\<forall>m \<in> set ms. \<forall>f \<in> set (sec_fields m). k \<noteq> keyFor (sec_id m) (f_name f)"
  shows "reconcile ms prev k = None"
proof -
  from assms have "k \<notin> fst ` set (default_pairs ms)" by (auto simp: pairs_member)
  then show ?thesis by (simp add: reconcile_at)
qed

lemma reconcile_keeps:
  assumes "m \<in> set ms" and "f \<in> set (sec_fields m)"
    and "prev (keyFor (sec_id m) (f_name f)) = Some v"
    and "v \<noteq> JStr []" and "v \<noteq> JNull" and "v \<noteq> JUndefined"
  shows "reconcile ms prev (keyFor (sec_id m) (f_name f)) = Some v"
proof -
  have "keyFor (sec_id m) (f_name f) \<in> fst ` set (default_pairs ms)"
    using assms(1,2) by (force simp: pairs_member)
  moreover have "\<not> empty_entry (prev (keyFor (sec_id m) (f_name f)))"
    using assms(3-6) by (simp add: empty_entry_def)
  ultimately show ?thesis using assms(3) by (simp add: reconcile_at settle_keeps)
qed

lemma reconcile_defined:
  assumes "m \<in> set ms" and "f \<in> set (sec_fields m)"
  shows "\<exists>v. reconcile ms prev (keyFor (sec_id m) (f_name f)) = Some v \<and> v \<noteq> JUndefined"
proof -
  let ?k = "keyFor (sec_id m) (f_name f)"
  let ?ds = "map snd (filter (\<lambda>p. fst p = ?k) (default_pairs ms))"
  have mem: "(?k, field_initial f) \<in> set (default_pairs ms)"
    using assms by (auto simp: pairs_member)
  then have ne: "?ds \<noteq> []" by (force simp: filter_empty_conv)
  have k: "?k \<in> fst ` set (default_pairs ms)" using mem by force
  show ?thesis
  proof (cases "empty_entry (prev ?k)")
    case True
    from settle_some [OF ne True] obtain d where d: "d \<in> set ?ds" "settle (prev ?k) ?ds = Some d"
      by blast
    from d(1) have "d \<noteq> JUndefined" using default_pairs_not_nullish [of _ ms] by auto
    with d(2) k show ?thesis by (simp add: reconcile_at)
  next
    case False
    then obtain v where "prev ?k = Some v" "v \<noteq> JUndefined" by (auto simp: empty_entry_def)
    with False k show ?thesis by (simp add: reconcile_at settle_keeps)
  qed
qed

lemma x_text_models:
  "map (\<lambda>m. (sec_id m, map (\<lambda>f. (f_name f, f_default f)) (sec_fields m))) (sectionModels x_text)
   = [(''sec0'', [(''x'', JNum (Fin 2 0))])]"
  by code_simp

text \<open>
  Claim C1. Let the store be reconciled against the section models of a program. (a) A
  key that a field of a model names and that was missing from the store, or held the
  empty string, \<^verbatim>\<open>null\<close> or \<^verbatim>\<open>undefined\<close>, now holds the default of that field. (b) A
  key that no field of any model names has no entry. (c) A key that a field names and
  whose value was not empty keeps that value (by (b), a value under a key that no field
  names is removed; no value that is not empty is overwritten). Consequently (d) the key of every field of
  every model has an entry that is not \<^verbatim>\<open>undefined\<close>.
\<close>

theorem reconcile_against_models:
  "(\<forall>m \<in> set (sectionModels code). \<forall>f \<in> set (sec_fields m).
      prev (keyFor (sec_id m) (f_name f)) = None
      \<or> prev (keyFor (sec_id m) (f_name f)) = Some (JStr [])
      \<or> prev (keyFor (sec_id m) (f_name f)) = Some JNull
      \<or> prev (keyFor (sec_id m) (f_name f)) = Some JUndefined
      \<longrightarrow> reconcile (sectionModels code) prev (keyFor (sec_id m) (f_name f)) = Some (f_default f))
   \<and> (\<forall>k. (\<forall>m \<in> set (sectionModels code). \<forall>f \<in> set (sec_fields m). k \<noteq> keyFor (sec_id m) (f_name f))
          \<longrightarrow> reconcile (sectionModels code) prev k = None)
   \<and> (\<forall>m \<in> set (sectionModels code). \<forall>f \<in> set (sec_fields m). \<forall>v.
         prev (keyFor (sec_id m) (f_name f)) = Some v \<and> v \<noteq> JStr [] \<and> v \<noteq> JNull \<and> v \<noteq> JUndefined
         \<longrightarrow> reconcile (sectionModels code) prev (keyFor (sec_id m) (f_name f)) = Some v)
   \<and> (\<forall>k v. prev k = Some v \<and> v \<noteq> JStr [] \<and> v \<noteq> JNull \<and> v \<noteq> JUndefined
         \<longrightarrow> reconcile (sectionModels code) prev k = Some v \<or> reconcile (sectionModels code) prev k = None)
   \<and> (\<forall>m \<in> set (sectionModels code). \<forall>f \<in> set (sec_fields m).
         \<exists>v. reconcile (sectionModels code) prev (keyFor (sec_id m) (f_name f)) = Some v \<and> v \<noteq> JUndefined)"
proof (intro conjI ballI allI impI)
  fix m f
  assume mf: "m \<in> set (sectionModels code)" "f \<in> set (sec_fields m)"
    and "prev (keyFor (sec_id m) (f_name f)) = None
      \<or> prev (keyFor (sec_id m) (f_name f)) = Some (JStr [])
      \<or> prev (keyFor (sec_id m) (f_name f)) = Some JNull
      \<or> prev (keyFor (sec_id m) (f_name f)) = Some JUndefined"
  then have "empty_entry (prev (keyFor (sec_id m) (f_name f)))" by (simp add: empty_entry_def)
  with mf show "reconcile (sectionModels code) prev (keyFor (sec_id m) (f_name f)) = Some (f_default f)"
    by (rule reconcile_named)
next
  fix k
  assume "\<forall>m \<in> set (sectionModels code). \<forall>f \<in> set (sec_fields m). k \<noteq> keyFor (sec_id m) (f_name f)"
  then show "reconcile (sectionModels code) prev k = None" by (rule reconcile_unnamed)
next
  fix m f v
  assume "m \<in> set (sectionModels code)" "f \<in> set (sec_fields m)"
    and "prev (keyFor (sec_id m) (f_name f)) = Some v \<and> v \<noteq> JStr [] \<and> v \<noteq> JNull \<and> v \<noteq> JUndefined"
  then show "reconcile (sectionModels code) prev (keyFor (sec_id m) (f_name f)) = Some v"
    by (intro reconcile_keeps) simp_all
next
  fix k v
  assume a: "prev k = Some v \<and> v \<noteq> JStr [] \<and> v \<noteq> JNull \<and> v \<noteq> JUndefined"
  then have "\<not> empty_entry (prev k)" by (simp add: empty_entry_def)
  with a show "reconcile (sectionModels code) prev k = Some v \<or> reconcile (sectionModels code) prev k = None"
    by (simp add: reconcile_at settle_keeps)
next
  fix m f
  assume "m \<in> set (sectionModels code)" "f \<in> set (sec_fields m)"
  then show "\<exists>v. reconcile (sectionModels code) prev (keyFor (sec_id m) (f_name f)) = Some v \<and> v \<noteq> JUndefined"
    by (rule reconcile_defined)
qed

theorem reconcile_against_models_witness:
  "map (\<lambda>m. (sec_id m, map (\<lambda>f. (f_name f, f_default f)) (sec_fields m))) (sectionModels x_text)
     = [(''sec0'', [(''x'', JNum (Fin 2 0))])]
   \<and> reconcile (sectionModels x_text) Map.empty ''sec0::x'' = Some (JNum (Fin 2 0))
   \<and> reconcile (sectionModels x_text) [''sec0::x'' \<mapsto> JStr []] ''sec0::x'' = Some (JNum (Fin 2 0))
   \<and> reconcile (sectionModels x_text) [''sec0::x'' \<mapsto> JStr ''7''] ''sec0::x'' = Some (JStr ''7'')
   \<and> reconcile (sectionModels x_text) [''sec1::y'' \<mapsto> JStr ''7''] ''sec1::y'' = None"
proof -
  from x_text_models obtain m where m: "sectionModels x_text = [m]" and id: "sec_id m = ''sec0''"
    and fs: "map (\<lambda>f. (f_name f, f_default f)) (sec_fields m) = [(''x'', JNum (Fin 2 0))]"
    by (cases "sectionModels x_text") auto
  from fs obtain f where f: "sec_fields m = [f]" and fn: "f_name f = ''x''"
    and fd: "f_default f = JNum (Fin 2 0)"
    by (cases "sec_fields m") auto
  have key: "keyFor (sec_id m) (f_name f) = ''sec0::x''" by (simp add: keyFor_def id fn)
  have mm: "m \<in> set (sectionModels x_text)" and ff: "f \<in> set (sec_fields m)"
    by (simp_all add: m f)
  have a: "reconcile (sectionModels x_text) Map.empty ''sec0::x'' = Some (JNum (Fin 2 0))"
    using reconcile_against_models [of x_text Map.empty, THEN conjunct1, rule_format, OF mm ff]
    by (simp add: key fd)
  have b: "reconcile (sectionModels x_text) [''sec0::x'' \<mapsto> JStr []] ''sec0::x'' = Some (JNum (Fin 2 0))"
    using reconcile_against_models [of x_text "[''sec0::x'' \<mapsto> JStr []]", THEN conjunct1, rule_format, OF mm ff]
    by (simp add: key fd)
  have c: "reconcile (sectionModels x_text) [''sec0::x'' \<mapsto> JStr ''7''] ''sec0::x'' = Some (JStr ''7'')"
    using reconcile_against_models [of x_text "[''sec0::x'' \<mapsto> JStr ''7'']",
        THEN conjunct2, THEN conjunct2, THEN conjunct1, rule_format, OF mm ff, of "JStr ''7''"]
    by (simp add: key)
  have d: "reconcile (sectionModels x_text) [''sec1::y'' \<mapsto> JStr ''7''] ''sec1::y'' = None"
    using reconcile_against_models [of x_text "[''sec1::y'' \<mapsto> JStr ''7'']",
        THEN conjunct2, THEN conjunct1, rule_format, of "''sec1::y''"]
    by (simp add: m f keyFor_def id fn)
  show ?thesis by (intro conjI x_text_models a b c d)
qed

section \<open>Directives and the variables of a section\<close>

lemma dropWhile_append_stop:
  "\<not> P y \<Longrightarrow> dropWhile P (xs @ y # ys) = dropWhile P xs @ y # ys"
  by (induction xs) simp_all

lemma amp_not_word: "\<not> is_word (CHR ''&'')"
  by (simp add: is_word_def is_alpha_def is_digit_def)

lemma var_matches_finds:
  "is_alpha l \<Longrightarrow> l # takeWhile is_word r \<in> set (var_matches (pre @ CHR ''&'' # l # r))"
proof (induction "length pre" arbitrary: pre rule: less_induct)
  case less
  show ?case
  proof (cases pre)
    case Nil
    with less.prems show ?thesis
      by (simp add: var_matches.simps alpha_word)
  next
    case (Cons c pre')
    let ?rest = "pre' @ CHR ''&'' # l # r"
    have short: "length (dropWhile is_word pre') < length pre"
      using Cons length_dropWhile_le [of is_word pre'] by simp
    have a: "l # takeWhile is_word r \<in> set (var_matches ?rest)"
      using less.hyps [of pre'] less.prems Cons by simp
    have b: "l # takeWhile is_word r \<in> set (var_matches (dropWhile is_word ?rest))"
      using less.hyps [OF short less.prems] by (simp add: dropWhile_append_stop amp_not_word)
    have "var_matches (c # ?rest) = var_matches ?rest
          \<or> var_matches (c # ?rest) = takeWhile is_word ?rest # var_matches (dropWhile is_word ?rest)"
      by (simp add: var_matches.simps)
    with a b show ?thesis unfolding Cons by auto
  qed
qed

lemma comment_lead_suffix: "comment_lead s = Some s1 \<Longrightarrow> \<exists>p. s = p @ s1"
proof -
  assume "comment_lead s = Some s1"
  then obtain q t where b: "dropWhile is_space s = q # t" and c: "s1 = dropWhile is_space t"
    by (auto simp: comment_lead_def split: list.splits if_splits)
  have "s = takeWhile is_space s @ dropWhile is_space s" by simp
  also have "\<dots> = takeWhile is_space s @ q # (takeWhile is_space t @ dropWhile is_space t)"
    unfolding b by simp
  finally have "s = (takeWhile is_space s @ q # takeWhile is_space t) @ s1" unfolding c by simp
  then show ?thesis by blast
qed

lemma keyword_ci_suffix: "keyword_ci kw s = Some r \<Longrightarrow> \<exists>p. s = p @ r"
proof -
  assume "keyword_ci kw s = Some r"
  then have c: "r = dropWhile is_space (drop (length kw) s)"
    by (auto simp: keyword_ci_def split: if_splits)
  have "s = take (length kw) s @ drop (length kw) s" by simp
  also have "drop (length kw) s
             = takeWhile is_space (drop (length kw) s) @ dropWhile is_space (drop (length kw) s)"
    by simp
  finally have "s = (take (length kw) s @ takeWhile is_space (drop (length kw) s)) @ r"
    unfolding c by simp
  then show ?thesis by blast
qed

lemma input_ref_shape:
  "input_ref s = Some (v, s3) \<Longrightarrow>
   \<exists>l r. s = CHR ''&'' # l # r \<and> is_alpha l \<and> v = CHR ''&'' # l # takeWhile is_word r
         \<and> s3 = dropWhile is_word r"
  by (auto simp: input_ref_def split: list.splits if_splits)

lemma directive_at_shape:
  assumes "directive_at s = Some (v, attrs, rest)"
  shows "(\<exists>p l r. s = p @ CHR ''&'' # l # r \<and> is_alpha l \<and> v = CHR ''&'' # l # takeWhile is_word r)
         \<and> (\<exists>q. s = q @ rest)"
proof -
  from assms obtain s1 s2 s3 where
    a: "comment_lead s = Some s1" and b: "keyword_ci ''@input'' s1 = Some s2"
    and c: "input_ref s2 = Some (v, s3)"
    and d: "rest = dropWhile (\<lambda>c. \<not> is_line_term c) (dropWhile is_space s3)"
    by (auto simp: directive_at_def split: option.splits if_splits)
  from comment_lead_suffix [OF a] obtain p1 where p1: "s = p1 @ s1" by blast
  from keyword_ci_suffix [OF b] obtain p2 where p2: "s1 = p2 @ s2" by blast
  from input_ref_shape [OF c] obtain l r where
    lr: "s2 = CHR ''&'' # l # r" "is_alpha l" "v = CHR ''&'' # l # takeWhile is_word r"
    "s3 = dropWhile is_word r"
    by blast
  have one: "s = (p1 @ p2) @ CHR ''&'' # l # r" using p1 p2 lr(1) by simp
  have "r = takeWhile is_word r @ s3" unfolding lr(4) by simp
  also have "s3 = takeWhile is_space s3 @ dropWhile is_space s3" by simp
  also have "dropWhile is_space s3
             = takeWhile (\<lambda>c. \<not> is_line_term c) (dropWhile is_space s3) @ rest"
    unfolding d by simp
  finally have "r = (takeWhile is_word r @ takeWhile is_space s3
                      @ takeWhile (\<lambda>c. \<not> is_line_term c) (dropWhile is_space s3)) @ rest"
    by simp
  then obtain q where "r = q @ rest" by blast
  with one have two: "s = (p1 @ p2 @ CHR ''&'' # l # q) @ rest" by simp
  from one lr(2,3) two show ?thesis by blast
qed

lemma directive_loop_refs:
  "(v, attrs) \<in> set (directive_loop bol s) \<Longrightarrow>
   \<exists>p l r. s = p @ CHR ''&'' # l # r \<and> is_alpha l \<and> v = CHR ''&'' # l # takeWhile is_word r"
proof (induction bol s rule: directive_loop.induct)
  case (1 bol s)
  show ?case
  proof (cases "if bol then directive_at s else None")
    case None
    with "1.prems" obtain c cs where s: "s = c # cs"
      and mem: "(v, attrs) \<in> set (directive_loop (is_line_term c) cs)"
      by (subst (asm) directive_loop.simps) (auto split: list.splits)
    from "1.IH"(1) [OF None s mem] obtain p l r where
      "cs = p @ CHR ''&'' # l # r" "is_alpha l" "v = CHR ''&'' # l # takeWhile is_word r"
      by blast
    with s have "s = (c # p) @ CHR ''&'' # l # r \<and> is_alpha l \<and> v = CHR ''&'' # l # takeWhile is_word r"
      by simp
    then show ?thesis by blast
  next
    case (Some x)
    obtain v0 a0 rest where x: "x = (v0, a0, rest)" by (cases x) auto
    from Some x have at: "directive_at s = Some (v0, a0, rest)" by (auto split: if_splits)
    from "1.prems" Some x have
      "(v, attrs) = (v0, a0) \<or> (v, attrs) \<in> set (directive_loop (consumed_last_lt s rest) rest)"
      by (subst (asm) directive_loop.simps) auto
    then show ?thesis
    proof
      assume "(v, attrs) = (v0, a0)"
      with directive_at_shape [OF at] show ?thesis by simp
    next
      assume mem: "(v, attrs) \<in> set (directive_loop (consumed_last_lt s rest) rest)"
      from "1.IH"(2) [OF Some x [symmetric] refl mem] obtain p l r where
        plr: "rest = p @ CHR ''&'' # l # r" "is_alpha l" "v = CHR ''&'' # l # takeWhile is_word r"
        by blast
      from directive_at_shape [OF at] obtain q where "s = q @ rest" by blast
      with plr have "s = (q @ p) @ CHR ''&'' # l # r \<and> is_alpha l \<and> v = CHR ''&'' # l # takeWhile is_word r"
        by simp
      then show ?thesis by blast
    qed
  qed
qed

lemma parseDirectivesIn_dom:
  "parseDirectivesIn t v = Some cfg \<Longrightarrow> \<exists>va \<in> set (directive_loop True t). strip_amp (fst va) = v"
proof -
  have "dom (foldl add_directive m xs) = dom m \<union> (\<lambda>va. strip_amp (fst va)) ` set xs" for m xs
    by (induction xs arbitrary: m) (auto simp: add_directive_def)
  then have "dom (parseDirectivesIn t) = (\<lambda>va. strip_amp (fst va)) ` set (directive_loop True t)"
    by (simp add: parseDirectivesIn_def)
  moreover assume "parseDirectivesIn t v = Some cfg"
  then have "v \<in> dom (parseDirectivesIn t)" by blast
  ultimately show ?thesis by auto
qed

lemma extractVariables_set: "set (extractVariables t) = set (var_matches t)"
proof -
  have "set (foldl set_add acc xs) = set acc \<union> set xs" for acc :: "string list" and xs
    by (induction xs arbitrary: acc) (auto simp: set_add_def)
  then show ?thesis by (simp add: extractVariables_def)
qed

lemma directive_variable_extracted:
  assumes "parseDirectivesIn t v = Some cfg"
  shows "v \<in> set (extractVariables t)"
proof -
  from parseDirectivesIn_dom [OF assms] obtain v0 a0 where
    mem: "(v0, a0) \<in> set (directive_loop True t)" and v: "strip_amp v0 = v"
    by auto
  from directive_loop_refs [OF mem] obtain p l r where
    t: "t = p @ CHR ''&'' # l # r" and l: "is_alpha l" and v0: "v0 = CHR ''&'' # l # takeWhile is_word r"
    by blast
  from v v0 have "v = l # takeWhile is_word r" by (simp add: strip_amp_def)
  with var_matches_finds [OF l, of r p] t show ?thesis by (simp add: extractVariables_set)
qed

text \<open>
  Claim C10. The variable of an \<^verbatim>\<open>@input\<close> directive is itself a match of the variable
  pattern in the text of its section. So in every section model, every variable that has
  a directive has a field, the one inferred from that directive, also when the
  directive line is the only place where the variable stands.
\<close>

theorem directive_variable_has_field:
  "\<forall>m \<in> set (sectionModels code). \<forall>v cfg.
     sec_directives m v = Some cfg \<longrightarrow>
       v \<in> set (extractVariables (sec_text m)) \<and>
       mk_field v (inferField v cfg) \<in> set (sec_fields m)"
proof (intro ballI allI impI)
  fix m v cfg
  assume "m \<in> set (sectionModels code)" and d: "sec_directives m v = Some cfg"
  then obtain s where m: "m = section_model s" by (auto simp: sectionModels_def)
  from d have p: "parseDirectivesIn (sec_text s) v = Some cfg"
    unfolding m by (simp add: section_model_def)
  from directive_variable_extracted [OF p] have e: "v \<in> set (extractVariables (sec_text s))" .
  then have "field_of (parseDirectivesIn (sec_text s)) v \<in> set (sec_fields m)"
    unfolding m by (simp add: section_model_def)
  with p e show "v \<in> set (extractVariables (sec_text m)) \<and> mk_field v (inferField v cfg) \<in> set (sec_fields m)"
    unfolding m by (simp add: field_of_def section_model_def)
qed

lemma x_text_directive:
  "map (\<lambda>m. (sec_text m, map_option (\<lambda>c. c ''default'') (sec_directives m ''x''))) (sectionModels x_text)
   = [(x_text, Some (Some ''2''))]"
  by code_simp

theorem directive_variable_has_field_witness:
  "\<exists>m cfg. sectionModels x_text = [m] \<and> sec_text m = CHR 0x27 # '' @input &x default=2''
     \<and> sec_directives m ''x'' = Some cfg \<and> cfg ''default'' = Some ''2''
     \<and> ''x'' \<in> set (extractVariables (sec_text m))
     \<and> mk_field ''x'' (inferField ''x'' cfg) \<in> set (sec_fields m)"
proof -
  from x_text_directive obtain m where m: "sectionModels x_text = [m]" and t: "sec_text m = x_text"
    and d: "map_option (\<lambda>c. c ''default'') (sec_directives m ''x'') = Some (Some ''2'')"
    by (cases "sectionModels x_text") auto
  from d obtain cfg where cfg: "sec_directives m ''x'' = Some cfg" "cfg ''default'' = Some ''2''"
    by (cases "sec_directives m ''x''") auto
  have mm: "m \<in> set (sectionModels x_text)" by (simp add: m)
  from directive_variable_has_field [of x_text, rule_format, OF mm cfg(1)]
  have "''x'' \<in> set (extractVariables (sec_text m))"
    and "mk_field ''x'' (inferField ''x'' cfg) \<in> set (sec_fields m)"
    by simp_all
  with m t cfg show ?thesis by (simp add: x_text_def)
qed

end
